theory Spec2Isabelle
  imports Main "HOL-Library.AList"
begin

section \<open>Boggle solver: the trie and the backtracking search of BoggleSolver.py\<close>

text \<open>
  Characters are Isabelle's 8-bit \<^typ>\<open>char\<close>; a Python string is a \<^typ>\<open>string\<close>, a board
  cell is one character. \<open>upper\<close> is Python's \<open>str.upper\<close> on an ASCII character: the
  letters \<open>a\<close> to \<open>z\<close> (codes 97 to 122) move down by 32, every other character stays.
\<close>

definition upper :: "char \<Rightarrow> char" where
  "upper c = (let n = (of_char c :: nat) in if 97 \<le> n \<and> n \<le> 122 then char_of (n - 32) else c)"

subsection \<open>TrieNode and Trie\<close>

text \<open>
  \<open>class TrieNode\<close>: the flag \<open>valid\<close> and the dict \<open>children\<close>, kept as an association
  list in insertion order (a Python dict keeps that order; a key occurs once).
\<close>

datatype TrieNode = TrieNode (valid: bool) (children: "(char \<times> TrieNode) list")

text \<open>
  \<open>Trie.insert(word, node)\<close>. The source mutates the nodes in place; the model returns the
  node after the call. With \<open>firstLetter\<close> absent from \<open>children\<close> a fresh node is stored,
  marked valid when \<open>len(word) == 1\<close>; with \<open>firstLetter\<close> present the existing node is
  taken as it is. Then the rest of the word is inserted below that node.
\<close>

fun insert_trie :: "string \<Rightarrow> TrieNode \<Rightarrow> TrieNode" where
  "insert_trie [] node = node"
| "insert_trie (firstLetter # rest) node =
     (let child = (case map_of (children node) firstLetter of
                     None \<Rightarrow> TrieNode (rest = []) []
                   | Some existing \<Rightarrow> existing)
      in TrieNode (valid node)
           (AList.update firstLetter (insert_trie rest child) (children node)))"

definition minimumValidWordLength :: nat where
  "minimumValidWordLength = 3"

text \<open>\<open>Trie.buildRoot\<close>: the loop over the dictionary, from the root given.\<close>

definition buildRoot :: "string list \<Rightarrow> TrieNode \<Rightarrow> TrieNode" where
  "buildRoot wordDictionary root =
     fold (\<lambda>word node.
             if length word \<ge> minimumValidWordLength then insert_trie (map upper word) node
             else node)
          wordDictionary root"

text \<open>\<open>Trie.__init__\<close>: a fresh root, then \<open>buildRoot\<close>; the value is the root.\<close>

definition Trie :: "string list \<Rightarrow> TrieNode" where
  "Trie wordDictionary = buildRoot wordDictionary (TrieNode False [])"

text \<open>
  The node reached from a node by following a string through \<open>children\<close>, as the search
  does one letter at a time.
\<close>

fun walk :: "TrieNode \<Rightarrow> string \<Rightarrow> TrieNode option" where
  "walk node [] = Some node"
| "walk node (c # cs) =
     (case map_of (children node) c of None \<Rightarrow> None | Some child \<Rightarrow> walk child cs)"

subsection \<open>Exceptions, indexing and the board\<close>

datatype exn = IndexError

text \<open>
  Python list indexing: an index \<open>i\<close> with \<open>0 \<le> i < n\<close> is position \<open>i\<close>, one with
  \<open>-n \<le> i < 0\<close> is position \<open>n + i\<close>, any other raises IndexError (here \<open>None\<close>).
\<close>

definition py_index :: "nat \<Rightarrow> int \<Rightarrow> nat option" where
  "py_index n i =
     (if 0 \<le> i \<and> i < int n then Some (nat i)
      else if - int n \<le> i \<and> i < 0 then Some (nat (int n + i))
      else None)"

text \<open>
  The place \<open>board[row][col]\<close> denotes in a list of rows, or \<open>None\<close> where either index
  raises. Rows are separate lists (no row object occurs twice in the board).
\<close>

definition cell_pos :: "char list list \<Rightarrow> int \<Rightarrow> int \<Rightarrow> (nat \<times> nat) option" where
  "cell_pos b row col =
     (case py_index (length b) row of
        None \<Rightarrow> None
      | Some r \<Rightarrow> (case py_index (length (b ! r)) col of
                     None \<Rightarrow> None
                   | Some c \<Rightarrow> Some (r, c)))"

definition set_cell :: "char list list \<Rightarrow> nat \<Rightarrow> nat \<Rightarrow> char \<Rightarrow> char list list" where
  "set_cell b r c v = b[r := (b ! r)[c := v]]"

subsection \<open>ValidWordsGenerator\<close>

text \<open>
  The fields of \<open>class ValidWordsGenerator\<close> that change or are read; \<open>directions\<close> and
  \<open>minimumValidWordLength\<close> are constants.
\<close>

record ValidWordsGenerator =
  board :: "char list list"
  wordTrie :: TrieNode
  rowLen :: nat
  colLen :: nat
  validWords :: "string set"

definition directions :: "(int \<times> int) list" where
  "directions = [(-1, -1), (-1, 0), (-1, 1), (0, -1), (0, 1), (1, -1), (1, 0), (1, 1)]"

text \<open>\<open>__init__\<close>: \<open>len(self.board[0])\<close> raises IndexError on a board with no row.\<close>

definition init :: "char list list \<Rightarrow> string list \<Rightarrow> exn + ValidWordsGenerator" where
  "init b wordDictionary =
     (case b of
        [] \<Rightarrow> Inl IndexError
      | row0 # _ \<Rightarrow>
          Inr \<lparr>board = b, wordTrie = Trie wordDictionary, rowLen = length b,
               colLen = length row0, validWords = {}\<rparr>)"

text \<open>\<open>getAdjCells\<close>: the cells yielded, in the order of \<open>directions\<close>.\<close>

definition getAdjCells :: "ValidWordsGenerator \<Rightarrow> int \<Rightarrow> int \<Rightarrow> (int \<times> int) list" where
  "getAdjCells self x y =
     filter (\<lambda>(new_x, new_y). 0 \<le> new_x \<and> new_x < int (rowLen self) \<and>
                              0 \<le> new_y \<and> new_y < int (colLen self))
            (map (\<lambda>(dx, dy). (x + dx, y + dy)) directions)"

text \<open>
  A \<open>for\<close> loop whose body may raise: the state is threaded through the items in order, the
  first exception ends the loop, and \<open>None\<close> (a body that did not return) is passed on.
\<close>

fun for_each :: "('a \<Rightarrow> 's \<Rightarrow> (exn + 's) option) \<Rightarrow> 'a list \<Rightarrow> 's \<Rightarrow> (exn + 's) option" where
  "for_each body [] s = Some (Inr s)"
| "for_each body (x # xs) s =
     (case body x s of
        None \<Rightarrow> None
      | Some (Inl e) \<Rightarrow> Some (Inl e)
      | Some (Inr s') \<Rightarrow> for_each body xs s')"

text \<open>
  \<open>DFS(row, col, board, trie, incoming_word)\<close>. Every caller passes \<open>self.board\<close> as
  \<open>board\<close>, so the parameter and the field are one object and the model has the one
  board of \<open>self\<close>. The first argument counts the activations of \<open>DFS\<close> that may be on
  the call stack, this one included: with none left the call does not return (\<open>None\<close>).
  The two writes reach the place the first read found, the shape of the board never
  changing.
\<close>

primrec DFS :: "nat \<Rightarrow> int \<Rightarrow> int \<Rightarrow> TrieNode \<Rightarrow> string \<Rightarrow> ValidWordsGenerator
                  \<Rightarrow> (exn + ValidWordsGenerator) option" where
  "DFS 0 row col trie incoming_word self = None"
| "DFS (Suc depth) row col trie incoming_word self =
     (case cell_pos (board self) row col of
        None \<Rightarrow> Some (Inl IndexError)
      | Some (r, c) \<Rightarrow>
          if board self ! r ! c = CHR ''*'' then Some (Inr self)
          else
            let letter = upper (board self ! r ! c);
                marked = self\<lparr>board := set_cell (board self) r c (CHR ''*'')\<rparr>
            in (case map_of (children trie) letter of
                  None \<Rightarrow> Some (Inr (marked\<lparr>board := set_cell (board marked) r c letter\<rparr>))
                | Some child \<Rightarrow>
                    let word = incoming_word @ [letter];
                        found = (if valid child \<and> length word \<ge> minimumValidWordLength
                                 then marked\<lparr>validWords := insert word (validWords marked)\<rparr>
                                 else marked)
                    in (case for_each (\<lambda>cell. DFS depth (fst cell) (snd cell) child word)
                                 (getAdjCells self row col) found of
                          None \<Rightarrow> None
                        | Some (Inl e) \<Rightarrow> Some (Inl e)
                        | Some (Inr after) \<Rightarrow>
                            Some (Inr (after\<lparr>board := set_cell (board after) r c letter\<rparr>)))))"

text \<open>The number of cells of a board, and of those that do not hold the marker.\<close>

definition cell_count :: "char list list \<Rightarrow> nat" where
  "cell_count b = sum_list (map length b)"

definition unmarked :: "char list list \<Rightarrow> nat" where
  "unmarked b = sum_list (map (\<lambda>row. length (filter (\<lambda>x. x \<noteq> CHR ''*'') row)) b)"

text \<open>
  \<open>findValidWords\<close>: \<open>DFS\<close> from every cell, row by row. The source has no bound on the
  recursion; the model allows one activation more than the board has cells, which is
  never used up (lemma \<open>findValidWords_returns\<close>).
\<close>

definition findValidWords :: "ValidWordsGenerator \<Rightarrow> (exn + ValidWordsGenerator) option" where
  "findValidWords self =
     (let root = wordTrie self
      in for_each (\<lambda>row. for_each (\<lambda>col. DFS (Suc (cell_count (board self))) row col root [])
                                   (map int [0 ..< colLen self]))
                  (map int [0 ..< rowLen self]) self)"

text \<open>\<open>getValidWords\<close>: the set found, with the generator as the call leaves it.\<close>

definition getValidWords :: "ValidWordsGenerator \<Rightarrow> (exn + string set \<times> ValidWordsGenerator) option" where
  "getValidWords self =
     (case findValidWords self of
        None \<Rightarrow> None
      | Some (Inl e) \<Rightarrow> Some (Inl e)
      | Some (Inr self') \<Rightarrow> Some (Inr (validWords self', self')))"

subsection \<open>generateValidWords\<close>

text \<open>
  What \<open>generateValidWords\<close> returns: the message string of the size check, or the set of
  words. The board is the caller's object, so the model returns it as the call leaves it,
  next to the value returned.
\<close>

datatype outcome = InvalidBoardSize | Words "string set"

definition validBoardSize :: nat where
  "validBoardSize = 4"

definition generateValidWords ::
    "char list list \<Rightarrow> string list \<Rightarrow> (exn + outcome \<times> char list list) option" where
  "generateValidWords b wordDictionary =
     (if length b \<noteq> validBoardSize then Some (Inr (InvalidBoardSize, b))
      else if length (b ! 0) \<noteq> validBoardSize then Some (Inr (InvalidBoardSize, b))
      else (case init b wordDictionary of
              Inl e \<Rightarrow> Some (Inl e)
            | Inr generator \<Rightarrow>
                (case getValidWords generator of
                   None \<Rightarrow> None
                 | Some (Inl e) \<Rightarrow> Some (Inl e)
                 | Some (Inr (found, generator')) \<Rightarrow> Some (Inr (Words found, board generator')))))"

subsection \<open>Notions the properties are stated with\<close>

text \<open>
  \<open>recased b b'\<close>: the board \<open>b'\<close> has the shape of \<open>b\<close> and every cell of it holds what
  \<open>b\<close> holds there or the upper-case form of that.
\<close>

definition recased :: "char list list \<Rightarrow> char list list \<Rightarrow> bool" where
  "recased b b' = list_all2 (list_all2 (\<lambda>x y. y = x \<or> y = upper x)) b b'"

text \<open>Two cells are adjacent when they differ, by at most 1 in the row and in the column.\<close>

definition adjacent :: "nat \<times> nat \<Rightarrow> nat \<times> nat \<Rightarrow> bool" where
  "adjacent p q =
     (p \<noteq> q \<and> \<bar>int (fst p) - int (fst q)\<bar> \<le> 1 \<and> \<bar>int (snd p) - int (snd q)\<bar> \<le> 1)"

text \<open>
  \<open>traces rows cols b path w\<close>: \<open>path\<close> is a list of cells of \<open>b\<close> inside the first
  \<open>rows\<close> rows and \<open>cols\<close> columns, no cell twice, each adjacent to the next, and the
  upper-cased letters of \<open>b\<close> along it spell \<open>w\<close>.
\<close>

definition traces :: "nat \<Rightarrow> nat \<Rightarrow> char list list \<Rightarrow> (nat \<times> nat) list \<Rightarrow> string \<Rightarrow> bool" where
  "traces rows cols b path w =
     (distinct path \<and> successively adjacent path \<and>
      list_all (\<lambda>(r, c). r < rows \<and> c < cols \<and> r < length b \<and> c < length (b ! r)) path \<and>
      map (\<lambda>(r, c). upper (b ! r ! c)) path = w)"

text \<open>No cell of the path holds the marker in \<open>b\<close>.\<close>

definition unmarked_path :: "char list list \<Rightarrow> (nat \<times> nat) list \<Rightarrow> bool" where
  "unmarked_path b path = list_all (\<lambda>(r, c). b ! r ! c \<noteq> CHR ''*'') path"

text \<open>
  \<open>keeps s s'\<close>: what a call that returns leaves of the generator \<open>s\<close>: the sizes and
  the trie are the same, no word found is lost, the board is \<open>recased\<close>.
\<close>

definition keeps :: "ValidWordsGenerator \<Rightarrow> ValidWordsGenerator \<Rightarrow> bool" where
  "keeps s s' =
     (rowLen s' = rowLen s \<and> colLen s' = colLen s \<and> wordTrie s' = wordTrie s \<and>
      validWords s \<subseteq> validWords s' \<and> recased (board s) (board s'))"

text \<open>
  \<open>masks b0 b\<close>: the board \<open>b\<close> during a search on \<open>b0\<close>: the same shape, and a cell
  holds the marker or a character with the upper-case form of the original.
\<close>

definition masks :: "char list list \<Rightarrow> char list list \<Rightarrow> bool" where
  "masks b0 b = list_all2 (list_all2 (\<lambda>x y. y = CHR ''*'' \<or> upper y = upper x)) b0 b"

text \<open>
  What holds of every word the search records: at least 3 letters, a valid node at its
  end in the trie, and a trace on the original board through cells that did not hold the
  marker.
\<close>

definition sound_word :: "nat \<Rightarrow> nat \<Rightarrow> char list list \<Rightarrow> TrieNode \<Rightarrow> string \<Rightarrow> bool" where
  "sound_word rows cols b0 root u =
     (3 \<le> length u \<and> (\<exists>node. walk root u = Some node \<and> valid node) \<and>
      (\<exists>path. traces rows cols b0 path u \<and> unmarked_path b0 path))"

text \<open>\<open>covers s\<close>: the board has every cell of the \<open>rowLen\<close> by \<open>colLen\<close> window.\<close>

definition covers :: "ValidWordsGenerator \<Rightarrow> bool" where
  "covers s = (rowLen s \<le> length (board s) \<and> (\<forall>r < rowLen s. colLen s \<le> length (board s ! r)))"

text \<open>\<open>alike s t\<close>: two generators that differ at most in the case of board letters.\<close>

definition alike :: "ValidWordsGenerator \<Rightarrow> ValidWordsGenerator \<Rightarrow> bool" where
  "alike s t =
     (rowLen s = rowLen t \<and> colLen s = colLen t \<and> wordTrie s = wordTrie t \<and>
      validWords s = validWords t \<and> map (map upper) (board s) = map (map upper) (board t))"

section \<open>Properties of the trie\<close>

subsection \<open>Upper-casing\<close>

lemma upper_idem: "upper (upper c) = upper c"
  unfolding upper_def Let_def by auto

lemma upper_star: "upper c = CHR ''*'' \<longleftrightarrow> c = CHR ''*''"
proof (cases "97 \<le> (of_char c :: nat) \<and> (of_char c :: nat) \<le> 122")
  case True
  then have u: "upper c = char_of (of_char c - 32 :: nat)" by (simp add: upper_def)
  have "(of_char c - 32 :: nat) < 256" using True by arith
  then have "(of_char c - 32 :: nat) mod 256 = of_char c - 32" by (rule mod_less)
  then have "(of_char (upper c) :: nat) = of_char c - 32" using u by simp
  then have "(of_char (upper c) :: nat) \<noteq> 42" using True by arith
  then have "upper c \<noteq> CHR ''*''" by auto
  moreover have "c \<noteq> CHR ''*''" using True by auto
  ultimately show ?thesis by simp
next
  case False
  then have "upper c = c" by (auto simp: upper_def Let_def)
  then show ?thesis by simp
qed

lemma upper_star_const: "upper (CHR ''*'') = CHR ''*''"
  by (simp add: upper_star)

subsection \<open>Insertion and the paths of the trie\<close>

lemma insert_trie_present: "walk t u \<noteq> None \<Longrightarrow> insert_trie u t = t"
proof (induction u arbitrary: t)
  case Nil
  then show ?case by simp
next
  case (Cons c rest)
  then obtain child where ch: "map_of (children t) c = Some child" and w: "walk child rest \<noteq> None"
    by (auto split: option.splits)
  from Cons.IH[OF w] ch show ?case
    by (simp add: update_triv)
qed

lemma walk_Nil_children: "walk (TrieNode v []) u \<noteq> None \<Longrightarrow> u = []"
  by (cases u) auto

lemma walk_insert_self: "walk (insert_trie u t) u \<noteq> None"
  by (induction u arbitrary: t) (auto simp: update_conv' Let_def)

lemma walk_insert_mono: "walk t v \<noteq> None \<Longrightarrow> walk (insert_trie u t) v \<noteq> None"
proof (induction u arbitrary: t v)
  case Nil
  then show ?case by simp
next
  case (Cons c rest)
  show ?case
  proof (cases v)
    case Nil
    then show ?thesis by simp
  next
    case (Cons d vs)
    with Cons.prems Cons.IH show ?thesis
      by (auto simp: update_conv' Let_def split: option.splits)
  qed
qed

lemma buildRoot_Nil: "buildRoot [] t = t"
  by (simp add: buildRoot_def)

lemma buildRoot_Cons:
  "buildRoot (w # ws) t =
     buildRoot ws (if length w \<ge> minimumValidWordLength then insert_trie (map upper w) t else t)"
  by (simp add: buildRoot_def)

lemma buildRoot_append: "buildRoot (xs @ ys) t = buildRoot ys (buildRoot xs t)"
  by (simp add: buildRoot_def)

lemma walk_buildRoot_mono: "walk t v \<noteq> None \<Longrightarrow> walk (buildRoot ws t) v \<noteq> None"
proof (induction ws arbitrary: t)
  case Nil
  then show ?case by (simp add: buildRoot_Nil)
next
  case (Cons w ws)
  have "walk (if length w \<ge> minimumValidWordLength then insert_trie (map upper w) t else t) v \<noteq> None"
    using Cons.prems walk_insert_mono by simp
  from Cons.IH[OF this] show ?case unfolding buildRoot_Cons .
qed

lemma valid_insert_trie:
  "walk (insert_trie u t) v = Some n \<Longrightarrow> valid n \<Longrightarrow>
     (v = u \<and> u \<noteq> []) \<or> (\<exists>n'. walk t v = Some n' \<and> valid n')"
proof (induction u arbitrary: t v n)
  case Nil
  then show ?case by simp
next
  case (Cons c rest)
  define child where "child = (case map_of (children t) c of None \<Rightarrow> TrieNode (rest = []) [] | Some e \<Rightarrow> e)"
  have ins: "insert_trie (c # rest) t = TrieNode (valid t) (AList.update c (insert_trie rest child) (children t))"
    by (simp add: child_def)
  show ?case
  proof (cases v)
    case Nil
    with Cons.prems ins show ?thesis by auto
  next
    case (Cons d vs)
    show ?thesis
    proof (cases "d = c")
      case True
      have w: "walk (insert_trie rest child) vs = Some n"
        using Cons.prems(1) unfolding ins Cons True by (simp add: update_conv')
      from Cons.IH[OF w \<open>valid n\<close>]
      consider "vs = rest" "rest \<noteq> []" | n' where "walk child vs = Some n'" "valid n'" by blast
      then show ?thesis
      proof cases
        case 1
        then show ?thesis using Cons True by simp
      next
        case 2
        show ?thesis
        proof (cases "map_of (children t) c")
          case None
          then have c: "child = TrieNode (rest = []) []" by (simp add: child_def)
          with 2 have "vs = []" using walk_Nil_children[of "rest = []" vs] by simp
          with 2 c have "rest = []" by auto
          with \<open>vs = []\<close> Cons True show ?thesis by simp
        next
          case (Some e)
          then have "child = e" by (simp add: child_def)
          with 2 Some Cons True show ?thesis by auto
        qed
      qed
    next
      case False
      have "walk t v = Some n"
        using Cons.prems(1) False unfolding ins Cons by (simp add: update_conv')
      with \<open>valid n\<close> show ?thesis by blast
    qed
  qed
qed

lemma valid_buildRoot:
  "walk (buildRoot ws t) v = Some n \<Longrightarrow> valid n \<Longrightarrow>
     (\<exists>d \<in> set ws. length d \<ge> 3 \<and> map upper d = v) \<or> (\<exists>n'. walk t v = Some n' \<and> valid n')"
proof (induction ws arbitrary: t)
  case Nil
  then show ?case by (simp add: buildRoot_Nil)
next
  case (Cons w ws)
  let ?t' = "if length w \<ge> minimumValidWordLength then insert_trie (map upper w) t else t"
  from Cons.prems have "walk (buildRoot ws ?t') v = Some n" by (simp add: buildRoot_Cons)
  from Cons.IH[OF this \<open>valid n\<close>]
  consider "\<exists>d \<in> set ws. length d \<ge> 3 \<and> map upper d = v" | n' where "walk ?t' v = Some n'" "valid n'"
    by blast
  then show ?case
  proof cases
    case 1
    then show ?thesis by auto
  next
    case 2
    show ?thesis
    proof (cases "length w \<ge> minimumValidWordLength")
      case True
      with 2 have "walk (insert_trie (map upper w) t) v = Some n'" by simp
      from valid_insert_trie[OF this \<open>valid n'\<close>] True show ?thesis
        by (auto simp: minimumValidWordLength_def)
    next
      case False
      with 2 show ?thesis by auto
    qed
  qed
qed

lemma valid_Trie:
  assumes "walk (Trie ws) v = Some n" "valid n"
  shows "\<exists>d \<in> set ws. length d \<ge> 3 \<and> map upper d = v"
proof -
  from valid_buildRoot[OF assms[unfolded Trie_def]]
  show ?thesis using walk_Nil_children[of False v] by (cases v) auto
qed

subsection \<open>Claims about the trie\<close>

text \<open>
  Claim C2 (prefix and extension in one dictionary, in either order). The claim fails on
  the code when the longer word comes first: \<open>insert\<close> sets \<open>valid\<close> only on a node
  it has just created, and the node of the final \<open>T\<close> of \<open>CAT\<close> exists already, made by
  \<open>CATS\<close>. The node reached by \<open>CAT\<close> in the trie of \<open>["CATS", "CAT"]\<close> has the child
  \<open>S\<close> and is not valid.
\<close>

theorem Trie_extension_first_prefix_not_valid:
  "walk (Trie [''CATS'', ''CAT'']) ''CAT'' = Some (TrieNode False [(CHR ''S'', TrieNode True [])])"
  by code_simp

text \<open>
  Claim C7 (minimum length at construction). A dictionary entry shorter than 3 characters
  leaves no trace: the trie is the one built from the dictionary without that entry,
  wherever the entry stands.
\<close>

theorem Trie_skips_short_entry:
  "length w < 3 \<Longrightarrow> Trie (xs @ w # ys) = Trie (xs @ ys)"
  by (simp add: Trie_def buildRoot_append buildRoot_Cons minimumValidWordLength_def)

theorem Trie_skips_short_entry_witness:
  "length ''AT'' < 3 \<and> Trie ([''CAT''] @ ''AT'' # [''DOG'']) = Trie ([''CAT''] @ [''DOG''])"
  using Trie_skips_short_entry [of "''AT''" "[''CAT'']" "[''DOG'']"] by simp

text \<open>
  Claim C8 (a duplicate word changes nothing). A dictionary that lists \<open>w\<close> a second time,
  anywhere after its first occurrence, gives the same trie (nodes, children in the same
  order, valid flags) as the dictionary without the second occurrence.
\<close>

theorem Trie_duplicate_idempotent:
  "Trie (xs @ w # ys @ w # zs) = Trie (xs @ w # ys @ zs)"
proof (cases "length w \<ge> minimumValidWordLength")
  case True
  let ?t = "buildRoot ys (insert_trie (map upper w) (buildRoot xs (TrieNode False [])))"
  have "walk ?t (map upper w) \<noteq> None"
    by (rule walk_buildRoot_mono) (rule walk_insert_self)
  then have "insert_trie (map upper w) ?t = ?t" by (rule insert_trie_present)
  with True show ?thesis
    by (simp add: Trie_def buildRoot_append buildRoot_Cons)
next
  case False
  then show ?thesis by (simp add: Trie_def buildRoot_append buildRoot_Cons)
qed

theorem Trie_duplicate_idempotent_witness:
  "Trie ([''DOG''] @ ''CAT'' # [''CATS''] @ ''CAT'' # []) = Trie ([''DOG''] @ ''CAT'' # [''CATS''] @ [])"
  using Trie_duplicate_idempotent [of "[''DOG'']" "''CAT''" "[''CATS'']" "[]"] by simp

section \<open>Properties of the search\<close>

subsection \<open>Boards\<close>

lemma py_index_less: "py_index n i = Some k \<Longrightarrow> k < n"
  by (auto simp: py_index_def split: if_splits)

lemma py_index_nonneg: "0 \<le> i \<Longrightarrow> py_index n i = Some k \<Longrightarrow> k = nat i"
  by (auto simp: py_index_def split: if_splits)

lemma py_index_int: "k < n \<Longrightarrow> py_index n (int k) = Some k"
  by (simp add: py_index_def)

lemma cell_pos_less: "cell_pos b row col = Some (r, c) \<Longrightarrow> r < length b \<and> c < length (b ! r)"
  by (auto simp: cell_pos_def split: option.splits dest: py_index_less)

lemma cell_pos_nonneg:
  "0 \<le> row \<Longrightarrow> 0 \<le> col \<Longrightarrow> cell_pos b row col = Some (r, c) \<Longrightarrow> r = nat row \<and> c = nat col"
  by (auto simp: cell_pos_def split: option.splits dest: py_index_nonneg)

lemma cell_pos_int: "r < length b \<Longrightarrow> c < length (b ! r) \<Longrightarrow> cell_pos b (int r) (int c) = Some (r, c)"
  by (simp add: cell_pos_def py_index_int)

lemma cell_pos_shape:
  assumes "map length b' = map length b"
  shows "cell_pos b' row col = cell_pos b row col"
proof -
  from assms have l: "length b' = length b" by (rule map_eq_imp_length_eq)
  have "length (b' ! r) = length (b ! r)" if "r < length b" for r
    using that assms l by (metis nth_map)
  then show ?thesis
    by (auto simp: cell_pos_def l split: option.splits dest: py_index_less)
qed

lemma length_set_cell [simp]: "length (set_cell b r c v) = length b"
  by (simp add: set_cell_def)

lemma length_set_cell_row [simp]: "length (set_cell b r c v ! r') = length (b ! r')"
  by (cases "r < length b"; cases "r' = r") (simp_all add: set_cell_def list_update_beyond)

lemma set_cell_nth:
  "r' < length b \<Longrightarrow> c' < length (b ! r') \<Longrightarrow>
     set_cell b r c v ! r' ! c' = (if r' = r \<and> c' = c then v else b ! r' ! c')"
  by (cases "r' = r"; cases "c' = c") (simp_all add: set_cell_def)

lemma map_length_set_cell [simp]: "map length (set_cell b r c v) = map length b"
  by (rule nth_equalityI) simp_all

lemma recased_nth:
  "recased b b' \<longleftrightarrow>
     length b' = length b \<and>
     (\<forall>r < length b. length (b' ! r) = length (b ! r) \<and>
        (\<forall>c < length (b ! r). b' ! r ! c = b ! r ! c \<or> b' ! r ! c = upper (b ! r ! c)))"
  by (auto simp: recased_def list_all2_conv_all_nth)

lemma recased_refl: "recased b b"
  by (simp add: recased_nth)

lemma recased_trans: "recased b b1 \<Longrightarrow> recased b1 b2 \<Longrightarrow> recased b b2"
  unfolding recased_nth by (metis upper_idem)

lemma recased_upper_cell:
  "recased b b' \<Longrightarrow> r < length b \<Longrightarrow> c < length (b ! r) \<Longrightarrow> upper (b' ! r ! c) = upper (b ! r ! c)"
  unfolding recased_nth by (metis upper_idem)

lemma recased_marker:
  "recased b b' \<Longrightarrow> r < length b \<Longrightarrow> c < length (b ! r) \<Longrightarrow>
     b' ! r ! c = CHR ''*'' \<longleftrightarrow> b ! r ! c = CHR ''*''"
  using recased_upper_cell[of b b' r c] by (metis upper_star)

lemma recased_upper_fix:
  "recased b b' \<Longrightarrow> r < length b \<Longrightarrow> c < length (b ! r) \<Longrightarrow> b ! r ! c = upper x \<Longrightarrow>
     b' ! r ! c = upper x"
  unfolding recased_nth by (metis upper_idem)

lemma recased_upper_boards: "recased b b' \<Longrightarrow> map (map upper) b' = map (map upper) b"
  by (rule nth_equalityI, simp add: recased_nth, rule nth_equalityI)
     (simp_all add: recased_nth recased_upper_cell)

lemma recased_restore:
  assumes "recased (set_cell b r c m) b1" "r < length b" "c < length (b ! r)"
  shows "recased b (set_cell b1 r c (upper (b ! r ! c)))"
  unfolding recased_nth
proof (intro conjI allI impI)
  from assms(1) have l: "length b1 = length b"
    and lr: "\<And>r'. r' < length b \<Longrightarrow> length (b1 ! r') = length (b ! r')"
    and cells: "\<And>r' c'. r' < length b \<Longrightarrow> c' < length (b ! r') \<Longrightarrow>
        b1 ! r' ! c' = set_cell b r c m ! r' ! c' \<or> b1 ! r' ! c' = upper (set_cell b r c m ! r' ! c')"
    by (simp_all add: recased_nth)
  show "length (set_cell b1 r c (upper (b ! r ! c))) = length b" using l by simp
  fix r' assume r': "r' < length b"
  show "length (set_cell b1 r c (upper (b ! r ! c)) ! r') = length (b ! r')" using lr[OF r'] by simp
  fix c' assume c': "c' < length (b ! r')"
  show "set_cell b1 r c (upper (b ! r ! c)) ! r' ! c' = b ! r' ! c' \<or>
        set_cell b1 r c (upper (b ! r ! c)) ! r' ! c' = upper (b ! r' ! c')"
    using cells[OF r' c'] r' c' l lr[OF r'] by (auto simp: set_cell_nth)
qed

lemma set_cell_twice: "set_cell (set_cell b r c m) r c v = set_cell b r c v"
  by (cases "r < length b") (simp_all add: set_cell_def list_update_beyond)

lemma recased_set_upper:
  "r < length b \<Longrightarrow> c < length (b ! r) \<Longrightarrow> recased b (set_cell b r c (upper (b ! r ! c)))"
  using recased_restore[where b = b and r = r and c = c and m = "CHR ''*''", OF recased_refl]
  by (simp add: set_cell_twice)

subsection \<open>Counting cells\<close>

lemma unmarked_row_recased:
  "list_all2 (\<lambda>x y. y = x \<or> y = upper x) row row' \<Longrightarrow>
     length (filter (\<lambda>x. x \<noteq> CHR ''*'') row') = length (filter (\<lambda>x. x \<noteq> CHR ''*'') row)"
  by (induction rule: list_all2_induct) (auto simp: upper_star)

lemma unmarked_recased: "recased b b' \<Longrightarrow> unmarked b' = unmarked b"
  unfolding recased_def unmarked_def
  by (induction rule: list_all2_induct) (auto simp: unmarked_row_recased)

lemma unmarked_le_cell_count: "unmarked b \<le> cell_count b"
  unfolding unmarked_def cell_count_def by (induction b) (auto intro: add_mono)

lemma unmarked_row_mark:
  "c < length row \<Longrightarrow> row ! c \<noteq> CHR ''*'' \<Longrightarrow>
     Suc (length (filter (\<lambda>x. x \<noteq> CHR ''*'') (row[c := CHR ''*'']))) =
     length (filter (\<lambda>x. x \<noteq> CHR ''*'') row)"
proof (induction row arbitrary: c)
  case Nil
  then show ?case by simp
next
  case (Cons x row)
  then show ?case by (cases c) auto
qed

lemma unmarked_mark:
  "r < length b \<Longrightarrow> c < length (b ! r) \<Longrightarrow> b ! r ! c \<noteq> CHR ''*'' \<Longrightarrow>
     Suc (unmarked (set_cell b r c (CHR ''*''))) = unmarked b"
proof (induction b arbitrary: r)
  case Nil
  then show ?case by simp
next
  case (Cons row b)
  show ?case
  proof (cases r)
    case 0
    with Cons.prems show ?thesis
      using unmarked_row_mark[of c row] by (simp add: unmarked_def set_cell_def)
  next
    case (Suc k)
    with Cons.prems Cons.IH[of k] show ?thesis
      by (simp add: unmarked_def set_cell_def)
  qed
qed

subsection \<open>Loops\<close>

lemma for_each_Cons_Inr:
  assumes "for_each body (x # xs) s = Some (Inr s')"
  obtains t where "body x s = Some (Inr t)" "for_each body xs t = Some (Inr s')"
  using assms by (auto split: option.splits sum.splits)

lemma for_each_invariant:
  assumes "for_each body xs s = Some (Inr s')" "I s"
    and step: "\<And>x t t'. x \<in> set xs \<Longrightarrow> I t \<Longrightarrow> body x t = Some (Inr t') \<Longrightarrow> I t'"
  shows "I s'"
  using assms
proof (induction xs arbitrary: s)
  case Nil
  then show ?case by simp
next
  case (Cons x xs)
  from Cons.prems(1) obtain t where t: "body x s = Some (Inr t)"
    and rest: "for_each body xs t = Some (Inr s')"
    by (rule for_each_Cons_Inr)
  have "I t" by (rule Cons.prems(3)[of x s t]) (simp_all add: Cons.prems(2) t)
  show ?case
  proof (rule Cons.IH[OF rest \<open>I t\<close>])
    fix y u u' assume "y \<in> set xs" "I u" "body y u = Some (Inr u')"
    then show "I u'" by (intro Cons.prems(3)[of y u u']) simp_all
  qed
qed

lemma for_each_returns:
  assumes "I s"
    and "\<And>x t. x \<in> set xs \<Longrightarrow> I t \<Longrightarrow> body x t \<noteq> None"
    and "\<And>x t t'. x \<in> set xs \<Longrightarrow> I t \<Longrightarrow> body x t = Some (Inr t') \<Longrightarrow> I t'"
  shows "for_each body xs s \<noteq> None"
  using assms
proof (induction xs arbitrary: s)
  case Nil
  then show ?case by simp
next
  case (Cons x xs)
  have nn: "body x s \<noteq> None" by (rule Cons.prems(2)[of x s]) (simp_all add: Cons.prems(1))
  then obtain res where res: "body x s = Some res" by blast
  show ?case
  proof (cases res)
    case (Inl e)
    with res show ?thesis by simp
  next
    case (Inr t)
    have "I t" by (rule Cons.prems(3)[of x s t]) (simp_all add: Cons.prems(1) res Inr)
    have "for_each body xs t \<noteq> None"
    proof (rule Cons.IH[OF \<open>I t\<close>])
      fix y u assume "y \<in> set xs" "I u"
      then show "body y u \<noteq> None" by (intro Cons.prems(2)[of y u]) simp_all
    next
      fix y u u' assume "y \<in> set xs" "I u" "body y u = Some (Inr u')"
      then show "I u'" by (intro Cons.prems(3)[of y u u']) simp_all
    qed
    with res Inr show ?thesis by simp
  qed
qed

lemma for_each_post:
  assumes "for_each body xs s = Some (Inr s')" "I s"
    and "\<And>x t t'. x \<in> set xs \<Longrightarrow> I t \<Longrightarrow> body x t = Some (Inr t') \<Longrightarrow> I t' \<and> Q x t'"
    and "\<And>x y t t'. y \<in> set xs \<Longrightarrow> I t \<Longrightarrow> Q x t \<Longrightarrow> body y t = Some (Inr t') \<Longrightarrow> Q x t'"
  shows "\<forall>x \<in> set xs. Q x s'"
  using assms
proof (induction xs arbitrary: s)
  case Nil
  show ?case by simp
next
  case (Cons x xs)
  from Cons.prems(1) obtain t where t: "body x s = Some (Inr t)"
    and rest: "for_each body xs t = Some (Inr s')"
    by (rule for_each_Cons_Inr)
  have "I t \<and> Q x t" by (rule Cons.prems(3)[of x s t]) (simp_all add: Cons.prems(2) t)
  then have It: "I t" and Qt: "Q x t" by simp_all
  have tail: "\<forall>y \<in> set xs. Q y s'"
  proof (rule Cons.IH[OF rest It])
    fix y u u' assume "y \<in> set xs" "I u" "body y u = Some (Inr u')"
    then show "I u' \<and> Q y u'" by (intro Cons.prems(3)[of y u u']) simp_all
  next
    fix z y u u' assume "y \<in> set xs" "I u" "Q z u" "body y u = Some (Inr u')"
    then show "Q z u'" by (intro Cons.prems(4)[of y u z u']) simp_all
  qed
  have "I s' \<and> Q x s'"
  proof (rule for_each_invariant[OF rest, where I = "\<lambda>u. I u \<and> Q x u"])
    show "I t \<and> Q x t" using It Qt by simp
  next
    fix y u u' assume a: "y \<in> set xs" "I u \<and> Q x u" "body y u = Some (Inr u')"
    have "I u' \<and> Q y u'" by (rule Cons.prems(3)[of y u u']) (use a in simp_all)
    then have "I u'" by simp
    moreover have "Q x u'" by (rule Cons.prems(4)[of y u x u']) (use a in simp_all)
    ultimately show "I u' \<and> Q x u'" by simp
  qed
  with tail show ?case by simp
qed

subsection \<open>The cases of a call of DFS\<close>

lemma DFS_Suc_present:
  assumes "cell_pos (board self) row col = Some (r, c)" "board self ! r ! c \<noteq> CHR ''*''"
    "map_of (children trie) (upper (board self ! r ! c)) = Some child"
  shows "DFS (Suc n) row col trie w self =
     (case for_each (\<lambda>cell. DFS n (fst cell) (snd cell) child (w @ [upper (board self ! r ! c)]))
             (getAdjCells self row col)
             (self\<lparr>board := set_cell (board self) r c (CHR ''*''),
                    validWords := (if valid child \<and> 3 \<le> Suc (length w)
                                   then insert (w @ [upper (board self ! r ! c)]) (validWords self)
                                   else validWords self)\<rparr>) of
        None \<Rightarrow> None
      | Some (Inl e) \<Rightarrow> Some (Inl e)
      | Some (Inr after) \<Rightarrow>
          Some (Inr (after\<lparr>board := set_cell (board after) r c (upper (board self ! r ! c))\<rparr>)))"
  using assms by (simp add: Let_def minimumValidWordLength_def)

lemma DFS_Suc_absent:
  assumes "cell_pos (board self) row col = Some (r, c)" "board self ! r ! c \<noteq> CHR ''*''"
    "map_of (children trie) (upper (board self ! r ! c)) = None"
  shows "DFS (Suc n) row col trie w self =
     Some (Inr (self\<lparr>board := set_cell (board self) r c (upper (board self ! r ! c))\<rparr>))"
  using assms by (simp add: Let_def set_cell_twice)

lemma DFS_Suc_marker:
  assumes "cell_pos (board self) row col = Some (r, c)" "board self ! r ! c = CHR ''*''"
  shows "DFS (Suc n) row col trie w self = Some (Inr self)"
  using assms by simp

lemma DFS_Suc_IndexError:
  assumes "cell_pos (board self) row col = None"
  shows "DFS (Suc n) row col trie w self = Some (Inl IndexError)"
  using assms by simp

lemma DFS_Suc_cases:
  assumes "DFS (Suc n) row col trie w self = Some (Inr self')"
  obtains
    (marker) r c where "cell_pos (board self) row col = Some (r, c)"
      "board self ! r ! c = CHR ''*''" "self' = self"
  | (absent) r c where "cell_pos (board self) row col = Some (r, c)"
      "board self ! r ! c \<noteq> CHR ''*''"
      "map_of (children trie) (upper (board self ! r ! c)) = None"
      "self' = self\<lparr>board := set_cell (board self) r c (upper (board self ! r ! c))\<rparr>"
  | (present) r c child after where "cell_pos (board self) row col = Some (r, c)"
      "board self ! r ! c \<noteq> CHR ''*''"
      "map_of (children trie) (upper (board self ! r ! c)) = Some child"
      "for_each (\<lambda>cell. DFS n (fst cell) (snd cell) child (w @ [upper (board self ! r ! c)]))
         (getAdjCells self row col)
         (self\<lparr>board := set_cell (board self) r c (CHR ''*''),
                validWords := (if valid child \<and> 3 \<le> Suc (length w)
                               then insert (w @ [upper (board self ! r ! c)]) (validWords self)
                               else validWords self)\<rparr>)
       = Some (Inr after)"
      "self' = after\<lparr>board := set_cell (board after) r c (upper (board self ! r ! c))\<rparr>"
proof (cases "cell_pos (board self) row col")
  case None
  with assms show ?thesis by simp
next
  case (Some p)
  obtain r c where "p = (r, c)" by (cases p)
  with Some have cp: "cell_pos (board self) row col = Some (r, c)" by simp
  show thesis
  proof (cases "board self ! r ! c = CHR ''*''")
    case True
    from assms[unfolded DFS_Suc_marker[OF cp True]] have "self' = self" by simp
    with cp True show thesis by (rule marker)
  next
    case False
    show thesis
    proof (cases "map_of (children trie) (upper (board self ! r ! c))")
      case None
      from assms[unfolded DFS_Suc_absent[OF cp False None]]
      have "self' = self\<lparr>board := set_cell (board self) r c (upper (board self ! r ! c))\<rparr>"
        by simp
      with cp False None show thesis by (rule absent)
    next
      case (Some child)
      from assms[unfolded DFS_Suc_present[OF cp False Some]] obtain after where
        "for_each (\<lambda>cell. DFS n (fst cell) (snd cell) child (w @ [upper (board self ! r ! c)]))
           (getAdjCells self row col)
           (self\<lparr>board := set_cell (board self) r c (CHR ''*''),
                  validWords := (if valid child \<and> 3 \<le> Suc (length w)
                                 then insert (w @ [upper (board self ! r ! c)]) (validWords self)
                                 else validWords self)\<rparr>)
         = Some (Inr after)"
        "self' = after\<lparr>board := set_cell (board after) r c (upper (board self ! r ! c))\<rparr>"
        by (auto split: option.splits sum.splits)
      with cp False Some show thesis by (rule present)
    qed
  qed
qed

subsection \<open>What a call leaves unchanged\<close>

lemma keeps_refl: "keeps s s"
  by (simp add: keeps_def recased_refl)

lemma keeps_trans: "keeps s t \<Longrightarrow> keeps t u \<Longrightarrow> keeps s u"
  unfolding keeps_def by (auto intro: recased_trans)

lemma DFS_keeps: "DFS n row col trie w self = Some (Inr self') \<Longrightarrow> keeps self self'"
proof (induction n arbitrary: row col trie w self self')
  case 0
  then show ?case by simp
next
  case (Suc n)
  from Suc.prems show ?case
  proof (cases rule: DFS_Suc_cases)
    case (marker r c)
    then show ?thesis by (simp add: keeps_refl)
  next
    case (absent r c)
    from cell_pos_less[OF absent(1)] have "recased (board self) (set_cell (board self) r c (upper (board self ! r ! c)))"
      by (simp add: recased_set_upper)
    with absent(4) show ?thesis by (simp add: keeps_def)
  next
    case (present r c child after)
    let ?letter = "upper (board self ! r ! c)"
    let ?found = "self\<lparr>board := set_cell (board self) r c (CHR ''*''),
                validWords := (if valid child \<and> 3 \<le> Suc (length w)
                               then insert (w @ [?letter]) (validWords self)
                               else validWords self)\<rparr>"
    have k: "keeps ?found after"
    proof (rule for_each_invariant[OF present(4), where I = "keeps ?found"])
      show "keeps ?found ?found" by (rule keeps_refl)
    next
      fix x t t'
      assume "keeps ?found t" "DFS n (fst x) (snd x) child (w @ [?letter]) t = Some (Inr t')"
      then show "keeps ?found t'" using Suc.IH keeps_trans by blast
    qed
    then have "recased (set_cell (board self) r c (CHR ''*'')) (board after)"
      by (simp add: keeps_def)
    from recased_restore[OF this] cell_pos_less[OF present(1)]
    have "recased (board self) (set_cell (board after) r c ?letter)" by simp
    moreover have "validWords self \<subseteq> validWords after" using k by (auto simp: keeps_def split: if_splits)
    ultimately show ?thesis using k present(5) by (simp add: keeps_def)
  qed
qed

lemma for_each_keeps:
  assumes "for_each body xs s = Some (Inr s')"
    and "\<And>x t t'. x \<in> set xs \<Longrightarrow> body x t = Some (Inr t') \<Longrightarrow> keeps t t'"
  shows "keeps s s'"
proof (rule for_each_invariant[OF assms(1), where I = "keeps s"])
  show "keeps s s" by (rule keeps_refl)
next
  fix x t t' assume "x \<in> set xs" "keeps s t" "body x t = Some (Inr t')"
  then show "keeps s t'" using assms(2) keeps_trans by blast
qed

subsection \<open>Every call returns\<close>

lemma DFS_returns: "unmarked (board self) < n \<Longrightarrow> DFS n row col trie w self \<noteq> None"
proof (induction n arbitrary: row col trie w self)
  case 0
  then show ?case by simp
next
  case (Suc n)
  show ?case
  proof (cases "cell_pos (board self) row col")
    case None
    then show ?thesis by simp
  next
    case (Some p)
    obtain r c where p: "p = (r, c)" by (cases p)
    note cp = Some[unfolded p]
    show ?thesis
    proof (cases "board self ! r ! c = CHR ''*''")
      case True
      with cp show ?thesis by simp
    next
      case False
      let ?letter = "upper (board self ! r ! c)"
      show ?thesis
      proof (cases "map_of (children trie) ?letter")
        case None
        with cp False show ?thesis by (simp add: Let_def)
      next
        case (Some child)
        let ?found = "self\<lparr>board := set_cell (board self) r c (CHR ''*''),
                validWords := (if valid child \<and> 3 \<le> Suc (length w)
                               then insert (w @ [?letter]) (validWords self)
                               else validWords self)\<rparr>"
        let ?loop = "for_each (\<lambda>cell. DFS n (fst cell) (snd cell) child (w @ [?letter]))
           (getAdjCells self row col) ?found"
        note unf = DFS_Suc_present[OF cp False Some, of n w]
        from unmarked_mark[OF _ _ False] cell_pos_less[OF cp] Suc.prems
        have less: "unmarked (board ?found) < n" by simp
        have "?loop \<noteq> None"
        proof (rule for_each_returns[where I = "\<lambda>t. unmarked (board t) < n"])
          show "unmarked (board ?found) < n" by (rule less)
        next
          fix x :: "int \<times> int" and t :: ValidWordsGenerator
          assume "unmarked (board t) < n"
          then show "DFS n (fst x) (snd x) child (w @ [?letter]) t \<noteq> None" by (rule Suc.IH)
        next
          fix x :: "int \<times> int" and t t' :: ValidWordsGenerator
          assume "unmarked (board t) < n" "DFS n (fst x) (snd x) child (w @ [?letter]) t = Some (Inr t')"
          then show "unmarked (board t') < n"
            using DFS_keeps unmarked_recased by (fastforce simp: keeps_def)
        qed
        then obtain res where res: "?loop = Some res" by blast
        show ?thesis unfolding unf res by (cases res) simp_all
      qed
    qed
  qed
qed

subsection \<open>Every word recorded has a trace\<close>

lemma masks_nth:
  "masks b0 b \<longleftrightarrow>
     length b = length b0 \<and>
     (\<forall>r < length b0. length (b ! r) = length (b0 ! r) \<and>
        (\<forall>c < length (b0 ! r). b ! r ! c = CHR ''*'' \<or> upper (b ! r ! c) = upper (b0 ! r ! c)))"
  by (auto simp: masks_def list_all2_conv_all_nth)

lemma recased_masks: "recased b0 b \<Longrightarrow> masks b0 b"
  unfolding masks_nth using recased_upper_cell[of b0 b] by (simp add: recased_nth)

lemma masks_recased:
  assumes "masks b0 b" "recased b b'"
  shows "masks b0 b'"
  unfolding masks_nth
proof (intro conjI allI impI)
  from assms have l: "length b = length b0" "length b' = length b"
    by (simp_all add: masks_nth recased_nth)
  then show "length b' = length b0" by simp
  fix r assume r: "r < length b0"
  with assms l have lr: "length (b ! r) = length (b0 ! r)" "length (b' ! r) = length (b ! r)"
    by (simp_all add: masks_nth recased_nth)
  then show "length (b' ! r) = length (b0 ! r)" by simp
  fix c assume c: "c < length (b0 ! r)"
  from assms(1) r c have m: "b ! r ! c = CHR ''*'' \<or> upper (b ! r ! c) = upper (b0 ! r ! c)"
    by (simp add: masks_nth)
  from assms(2) r c l lr have u: "upper (b' ! r ! c) = upper (b ! r ! c)"
    by (simp add: recased_upper_cell)
  show "b' ! r ! c = CHR ''*'' \<or> upper (b' ! r ! c) = upper (b0 ! r ! c)"
  proof (cases "b ! r ! c = CHR ''*''")
    case True
    with u have "upper (b' ! r ! c) = CHR ''*''" by (simp add: upper_star)
    then show ?thesis by (simp add: upper_star)
  next
    case False
    with m u show ?thesis by simp
  qed
qed

lemma masks_mark: "masks b0 b \<Longrightarrow> masks b0 (set_cell b r c (CHR ''*''))"
  unfolding masks_nth
  by (intro conjI allI impI) (simp_all add: set_cell_nth)

lemma masks_cell:
  assumes "masks b0 b" "r < length b" "c < length (b ! r)" "b ! r ! c \<noteq> CHR ''*''"
  shows "upper (b ! r ! c) = upper (b0 ! r ! c)" "b0 ! r ! c \<noteq> CHR ''*''"
proof -
  from assms show u: "upper (b ! r ! c) = upper (b0 ! r ! c)" by (auto simp: masks_nth)
  show "b0 ! r ! c \<noteq> CHR ''*''"
  proof
    assume "b0 ! r ! c = CHR ''*''"
    with u have "upper (b ! r ! c) = CHR ''*''" by (simp add: upper_star)
    with assms(4) show False by (simp add: upper_star)
  qed
qed

lemma walk_snoc:
  "walk root w = Some node \<Longrightarrow> map_of (children node) x = Some child \<Longrightarrow>
     walk root (w @ [x]) = Some child"
  by (induction w arbitrary: root) (auto split: option.splits)

lemma directions_mem:
  "d \<in> set directions \<Longrightarrow> d \<noteq> (0, 0) \<and> \<bar>fst d\<bar> \<le> 1 \<and> \<bar>snd d\<bar> \<le> 1"
  unfolding directions_def by auto

lemma getAdjCells_mem:
  assumes "x \<in> set (getAdjCells self row col)"
  shows "0 \<le> fst x" "fst x < int (rowLen self)" "0 \<le> snd x" "snd x < int (colLen self)"
    "x \<noteq> (row, col)" "\<bar>fst x - row\<bar> \<le> 1" "\<bar>snd x - col\<bar> \<le> 1"
proof -
  from assms obtain d where d: "d \<in> set directions" and x: "x = (row + fst d, col + snd d)"
    and w: "0 \<le> fst x \<and> fst x < int (rowLen self) \<and> 0 \<le> snd x \<and> snd x < int (colLen self)"
    unfolding getAdjCells_def by (auto simp: case_prod_beta)
  from w show "0 \<le> fst x" "fst x < int (rowLen self)" "0 \<le> snd x" "snd x < int (colLen self)"
    by simp_all
  from directions_mem[OF d] x show "x \<noteq> (row, col)" "\<bar>fst x - row\<bar> \<le> 1" "\<bar>snd x - col\<bar> \<le> 1"
    by (auto simp: prod_eq_iff)
qed

lemma traces_snoc:
  assumes "traces R C b0 path w" "(r, c) \<notin> set path" "r < R" "c < C" "r < length b0"
    "c < length (b0 ! r)" "path = [] \<or> adjacent (last path) (r, c)"
  shows "traces R C b0 (path @ [(r, c)]) (w @ [upper (b0 ! r ! c)])"
proof -
  from assms(1) have d: "distinct path" and s: "successively adjacent path"
    and a: "list_all (\<lambda>(r, c). r < R \<and> c < C \<and> r < length b0 \<and> c < length (b0 ! r)) path"
    and m: "map (\<lambda>(r, c). upper (b0 ! r ! c)) path = w"
    by (simp_all add: traces_def)
  have "distinct (path @ [(r, c)])" using d assms(2) by simp
  moreover have "successively adjacent (path @ [(r, c)])"
    using s assms(7) by (auto simp: successively_append_iff)
  moreover have "list_all (\<lambda>(r, c). r < R \<and> c < C \<and> r < length b0 \<and> c < length (b0 ! r)) (path @ [(r, c)])"
    using a assms(3-6) by simp
  moreover have "map (\<lambda>(r, c). upper (b0 ! r ! c)) (path @ [(r, c)]) = w @ [upper (b0 ! r ! c)]"
    using m by simp
  ultimately show ?thesis by (simp only: traces_def)
qed

lemma adjacent_nat:
  assumes "0 \<le> row" "0 \<le> col" "0 \<le> fst x" "0 \<le> snd x" "x \<noteq> (row, col)"
    "\<bar>fst x - row\<bar> \<le> 1" "\<bar>snd x - col\<bar> \<le> 1"
  shows "adjacent (nat row, nat col) (nat (fst x), nat (snd x))"
  using assms unfolding adjacent_def by (cases x) auto

lemma DFS_sound:
  assumes "DFS n row col trie w self = Some (Inr self')"
    and "rowLen self = R" "colLen self = C"
    and "0 \<le> row" "row < int R" "0 \<le> col" "col < int C"
    and "masks b0 (board self)"
    and "traces R C b0 path w" "unmarked_path b0 path"
    and "\<forall>p \<in> set path. board self ! fst p ! snd p = CHR ''*''"
    and "path = [] \<or> adjacent (last path) (nat row, nat col)"
    and "walk root w = Some trie"
    and "\<forall>u \<in> validWords self. sound_word R C b0 root u"
  shows "\<forall>u \<in> validWords self'. sound_word R C b0 root u"
  using assms
proof (induction n arbitrary: row col trie w self self' path)
  case 0
  then show ?case by simp
next
  case (Suc n)
  from Suc.prems(1) show ?case
  proof (cases rule: DFS_Suc_cases)
    case (marker r c)
    with Suc.prems(14) show ?thesis by simp
  next
    case (absent r c)
    with Suc.prems(14) show ?thesis by simp
  next
    case (present r c child after)
    let ?b = "board self"
    let ?letter = "upper (?b ! r ! c)"
    let ?w = "w @ [?letter]"
    let ?found = "self\<lparr>board := set_cell ?b r c (CHR ''*''),
                validWords := (if valid child \<and> 3 \<le> Suc (length w)
                               then insert ?w (validWords self)
                               else validWords self)\<rparr>"
    let ?path = "path @ [(r, c)]"
    from cell_pos_nonneg[OF Suc.prems(4,6) present(1)] have rc: "r = nat row" "c = nat col"
      by simp_all
    from cell_pos_less[OF present(1)] have inb: "r < length ?b" "c < length (?b ! r)"
      by simp_all
    from Suc.prems(8) have shape: "length ?b = length b0"
      "\<And>k. k < length b0 \<Longrightarrow> length (?b ! k) = length (b0 ! k)"
      by (simp_all add: masks_nth)
    from masks_cell[OF Suc.prems(8) inb present(2)]
    have letter: "?letter = upper (b0 ! r ! c)" and orig: "b0 ! r ! c \<noteq> CHR ''*''"
      by simp_all
    have notin: "(r, c) \<notin> set path"
    proof
      assume "(r, c) \<in> set path"
      with Suc.prems(11) have "?b ! r ! c = CHR ''*''" by force
      with present(2) show False by simp
    qed
    have win: "r < R" "c < C" using rc Suc.prems(4-7) by simp_all
    have tr: "traces R C b0 ?path ?w"
      unfolding letter
      by (rule traces_snoc[OF Suc.prems(9) notin win])
         (use inb shape Suc.prems(12) rc in simp_all)
    have up: "unmarked_path b0 ?path"
      using Suc.prems(10) orig by (simp add: unmarked_path_def)
    have wk: "walk root ?w = Some child"
      by (rule walk_snoc[OF Suc.prems(13) present(3)])
    have snd: "sound_word R C b0 root ?w" if "valid child" "3 \<le> Suc (length w)"
      unfolding sound_word_def using that wk tr up by auto
    have old: "\<forall>u \<in> validWords ?found. sound_word R C b0 root u"
      using Suc.prems(14) snd by simp
    have marked: "\<forall>p \<in> set ?path. board ?found ! fst p ! snd p = CHR ''*''"
    proof
      fix p assume p: "p \<in> set ?path"
      show "board ?found ! fst p ! snd p = CHR ''*''"
      proof (cases "p = (r, c)")
        case True
        with inb show ?thesis by (simp add: set_cell_nth)
      next
        case False
        with p have pp: "p \<in> set path" by simp
        with Suc.prems(11) have st: "?b ! fst p ! snd p = CHR ''*''" by simp
        from pp Suc.prems(9) have "fst p < length b0 \<and> snd p < length (b0 ! fst p)"
          by (auto simp: traces_def list_all_iff)
        with shape have "fst p < length ?b" "snd p < length (?b ! fst p)" by simp_all
        with st show ?thesis by (simp add: set_cell_nth)
      qed
    qed
    define J where "J t \<longleftrightarrow> keeps ?found t \<and> (\<forall>u \<in> validWords t. sound_word R C b0 root u)" for t
    have "J after"
    proof (rule for_each_invariant[OF present(4), where I = J])
      show "J ?found" unfolding J_def using old keeps_refl by blast
    next
      fix x t t'
      assume x: "x \<in> set (getAdjCells self row col)" and Jt: "J t"
        and call: "DFS n (fst x) (snd x) child ?w t = Some (Inr t')"
      from Jt have k: "keeps ?found t" and okt: "\<forall>u \<in> validWords t. sound_word R C b0 root u"
        by (simp_all add: J_def)
      from k have rl: "rowLen t = R" "colLen t = C" and rec: "recased (board ?found) (board t)"
        using Suc.prems(2,3) by (simp_all add: keeps_def)
      note adj = getAdjCells_mem[OF x]
      have xr: "0 \<le> fst x" "fst x < int R" "0 \<le> snd x" "snd x < int C"
        using adj Suc.prems(2,3) by simp_all
      have mk: "masks b0 (board t)"
        using masks_recased[OF masks_mark[OF Suc.prems(8)]] rec by simp
      have mt: "\<forall>p \<in> set ?path. board t ! fst p ! snd p = CHR ''*''"
      proof
        fix p assume p: "p \<in> set ?path"
        with marked have st: "board ?found ! fst p ! snd p = CHR ''*''" by blast
        from p tr have "fst p < length b0 \<and> snd p < length (b0 ! fst p)"
          by (auto simp: traces_def list_all_iff)
        with shape have "fst p < length (board ?found)" "snd p < length (board ?found ! fst p)"
          by simp_all
        from recased_marker[OF rec this] st show "board t ! fst p ! snd p = CHR ''*''" by simp
      qed
      have ad: "?path = [] \<or> adjacent (last ?path) (nat (fst x), nat (snd x))"
        using adjacent_nat[OF Suc.prems(4,6) adj(1,3,5,6,7)] rc by simp
      have "\<forall>u \<in> validWords t'. sound_word R C b0 root u"
        by (rule Suc.IH[OF call rl xr mk tr up mt ad wk okt])
      moreover have "keeps ?found t'" using k DFS_keeps[OF call] by (rule keeps_trans)
      ultimately show "J t'" by (simp add: J_def)
    qed
    then have "\<forall>u \<in> validWords after. sound_word R C b0 root u" by (simp add: J_def)
    with present(5) show ?thesis by simp
  qed
qed

subsection \<open>The two loops of findValidWords as one loop over the cells\<close>

lemma for_each_append:
  "for_each body (xs @ ys) s =
     (case for_each body xs s of
        None \<Rightarrow> None
      | Some (Inl e) \<Rightarrow> Some (Inl e)
      | Some (Inr t) \<Rightarrow> for_each body ys t)"
  by (induction xs arbitrary: s) (simp_all split: option.splits sum.splits)

lemma for_each_map: "for_each body (map g xs) s = for_each (\<lambda>x. body (g x)) xs s"
  by (induction xs arbitrary: s) (simp_all split: option.splits sum.splits)

lemma for_each_product:
  "for_each (\<lambda>x. for_each (\<lambda>y. body x y) ys) xs s =
     for_each (\<lambda>p. body (fst p) (snd p)) (List.product xs ys) s"
proof (induction xs arbitrary: s)
  case Nil
  show ?case by simp
next
  case (Cons x xs)
  have "for_each (\<lambda>p. body (fst p) (snd p)) (map (Pair x) ys) s = for_each (\<lambda>y. body x y) ys s"
    by (simp add: for_each_map)
  then show ?case
    by (simp add: for_each_append Cons.IH split: option.splits sum.splits)
qed

lemma findValidWords_cells:
  "findValidWords self =
     for_each (\<lambda>p. DFS (Suc (cell_count (board self))) (fst p) (snd p) (wordTrie self) [])
       (List.product (map int [0 ..< rowLen self]) (map int [0 ..< colLen self])) self"
  unfolding findValidWords_def Let_def by (rule for_each_product)

lemma cells_mem:
  "p \<in> set (List.product (map int [0 ..< R]) (map int [0 ..< C])) \<longleftrightarrow>
     0 \<le> fst p \<and> fst p < int R \<and> 0 \<le> snd p \<and> snd p < int C"
proof -
  have "x \<in> int ` {0 ..< n} \<longleftrightarrow> 0 \<le> x \<and> x < int n" for x n
  proof
    assume "x \<in> int ` {0 ..< n}"
    then show "0 \<le> x \<and> x < int n" by auto
  next
    assume "0 \<le> x \<and> x < int n"
    then have "nat x \<in> {0 ..< n}" "x = int (nat x)" by auto
    then show "x \<in> int ` {0 ..< n}" by blast
  qed
  then show ?thesis by (cases p) simp
qed

lemma findValidWords_keeps: "findValidWords self = Some (Inr self') \<Longrightarrow> keeps self self'"
  unfolding findValidWords_cells by (erule for_each_keeps) (rule DFS_keeps)

lemma findValidWords_returns: "findValidWords self \<noteq> None"
  unfolding findValidWords_cells
proof (rule for_each_returns[where I = "keeps self"])
  show "keeps self self" by (rule keeps_refl)
next
  fix x :: "int \<times> int" and t :: ValidWordsGenerator
  assume "keeps self t"
  then have "unmarked (board t) = unmarked (board self)" by (simp add: keeps_def unmarked_recased)
  then have "unmarked (board t) < Suc (cell_count (board self))"
    using unmarked_le_cell_count[of "board self"] by simp
  then show "DFS (Suc (cell_count (board self))) (fst x) (snd x) (wordTrie self) [] t \<noteq> None"
    by (rule DFS_returns)
next
  fix x :: "int \<times> int" and t t' :: ValidWordsGenerator
  assume "keeps self t"
    "DFS (Suc (cell_count (board self))) (fst x) (snd x) (wordTrie self) [] t = Some (Inr t')"
  then show "keeps self t'" using DFS_keeps keeps_trans by blast
qed

lemma traces_Nil: "traces R C b0 [] []"
  by (simp add: traces_def)

lemma findValidWords_sound:
  assumes "findValidWords self = Some (Inr self')"
    and "\<forall>u \<in> validWords self. sound_word (rowLen self) (colLen self) (board self) (wordTrie self) u"
  shows "\<forall>u \<in> validWords self'. sound_word (rowLen self) (colLen self) (board self) (wordTrie self) u"
proof -
  let ?ok = "sound_word (rowLen self) (colLen self) (board self) (wordTrie self)"
  define J where "J t \<longleftrightarrow> keeps self t \<and> (\<forall>u \<in> validWords t. ?ok u)" for t
  have "J self'"
  proof (rule for_each_invariant[OF assms(1)[unfolded findValidWords_cells], where I = J])
    show "J self" unfolding J_def using assms(2) keeps_refl by blast
  next
    fix x t t'
    assume x: "x \<in> set (List.product (map int [0 ..< rowLen self]) (map int [0 ..< colLen self]))"
      and Jt: "J t"
      and call: "DFS (Suc (cell_count (board self))) (fst x) (snd x) (wordTrie self) [] t = Some (Inr t')"
    from Jt have k: "keeps self t" and okt: "\<forall>u \<in> validWords t. ?ok u" by (simp_all add: J_def)
    from x[unfolded cells_mem]
    have xr: "0 \<le> fst x" "fst x < int (rowLen self)" "0 \<le> snd x" "snd x < int (colLen self)"
      by simp_all
    from k have rl: "rowLen t = rowLen self" "colLen t = colLen self"
      and mk: "masks (board self) (board t)"
      by (simp_all add: keeps_def recased_masks)
    have "\<forall>u \<in> validWords t'. ?ok u"
      by (rule DFS_sound[OF call rl xr mk traces_Nil, where root = "wordTrie self"])
         (simp_all add: unmarked_path_def okt)
    moreover have "keeps self t'" using k DFS_keeps[OF call] by (rule keeps_trans)
    ultimately show "J t'" by (simp add: J_def)
  qed
  then show ?thesis by (simp add: J_def)
qed

subsection \<open>The cell a call starts at\<close>

lemma DFS_Inr_cell_pos:
  assumes "DFS n row col trie w self = Some (Inr self')"
  obtains r c where "cell_pos (board self) row col = Some (r, c)"
proof (cases "cell_pos (board self) row col")
  case None
  with assms show ?thesis by (cases n) simp_all
next
  case (Some p)
  with that show ?thesis by (cases p) simp
qed

lemma DFS_cell_upper:
  assumes "DFS n row col trie w self = Some (Inr self')" "cell_pos (board self) row col = Some (r, c)"
  shows "board self' ! r ! c = upper (board self ! r ! c)"
proof (cases n)
  case 0
  with assms show ?thesis by simp
next
  case (Suc m)
  from cell_pos_less[OF assms(2)] have inb: "r < length (board self)" "c < length (board self ! r)"
    by simp_all
  from assms(1)[unfolded Suc] show ?thesis
  proof (cases rule: DFS_Suc_cases)
    case (marker r' c')
    with assms(2) show ?thesis by (simp add: upper_star_const)
  next
    case (absent r' c')
    with assms(2) inb show ?thesis by (simp add: set_cell_nth)
  next
    case (present r' c' child after)
    with assms(2) have rc: "r' = r" "c' = c" by simp_all
    from DFS_keeps[OF assms(1)] have "recased (board self) (board self')" by (simp add: keeps_def)
    then have "length (board self') = length (board self)"
      "length (board self' ! r) = length (board self ! r)"
      using inb by (simp_all add: recased_nth)
    with present(5) inb have "r < length (board after)" "c < length (board after ! r)"
      by (simp_all add: rc)
    with present(5) rc show ?thesis by (simp add: set_cell_nth)
  qed
qed

lemma findValidWords_upper:
  assumes "findValidWords self = Some (Inr self')" "r < rowLen self" "c < colLen self"
  shows "r < length (board self) \<and> c < length (board self ! r) \<and>
         board self' ! r ! c = upper (board self ! r ! c)"
proof -
  let ?N = "Suc (cell_count (board self))"
  let ?cells = "List.product (map int [0 ..< rowLen self]) (map int [0 ..< colLen self])"
  define Q where "Q p t \<longleftrightarrow> nat (fst p) < length (board self) \<and>
      nat (snd p) < length (board self ! nat (fst p)) \<and>
      board t ! nat (fst p) ! nat (snd p) = upper (board self ! nat (fst p) ! nat (snd p))"
    for p :: "int \<times> int" and t :: ValidWordsGenerator
  have "\<forall>p \<in> set ?cells. Q p self'"
  proof (rule for_each_post[OF assms(1)[unfolded findValidWords_cells], where I = "keeps self"])
    show "keeps self self" by (rule keeps_refl)
  next
    fix x t t'
    assume x: "x \<in> set ?cells" and k: "keeps self t"
      and call: "DFS ?N (fst x) (snd x) (wordTrie self) [] t = Some (Inr t')"
    from x[unfolded cells_mem] have nn: "0 \<le> fst x" "0 \<le> snd x" by simp_all
    from k have rec: "recased (board self) (board t)" by (simp add: keeps_def)
    from call obtain r' c' where cp: "cell_pos (board t) (fst x) (snd x) = Some (r', c')"
      by (rule DFS_Inr_cell_pos)
    from cell_pos_nonneg[OF nn cp] have rc: "r' = nat (fst x)" "c' = nat (snd x)" by simp_all
    from cell_pos_less[OF cp] have inb_t: "r' < length (board t)" "c' < length (board t ! r')"
      by simp_all
    with rec have inb: "r' < length (board self)" "c' < length (board self ! r')"
      by (simp_all add: recased_nth)
    from DFS_cell_upper[OF call cp] recased_upper_cell[OF rec inb]
    have "board t' ! r' ! c' = upper (board self ! r' ! c')" by simp
    with inb rc have "Q x t'" by (simp add: Q_def)
    moreover have "keeps self t'" using k DFS_keeps[OF call] by (rule keeps_trans)
    ultimately show "keeps self t' \<and> Q x t'" by simp
  next
    fix x y t t'
    assume k: "keeps self t" and q: "Q x t"
      and call: "DFS ?N (fst y) (snd y) (wordTrie self) [] t = Some (Inr t')"
    from k have rec: "recased (board self) (board t)" by (simp add: keeps_def)
    from DFS_keeps[OF call] have rec': "recased (board t) (board t')" by (simp add: keeps_def)
    from q have inb: "nat (fst x) < length (board self)"
      "nat (snd x) < length (board self ! nat (fst x))" by (simp_all add: Q_def)
    with rec have inb_t: "nat (fst x) < length (board t)"
      "nat (snd x) < length (board t ! nat (fst x))" by (simp_all add: recased_nth)
    from q have "board t ! nat (fst x) ! nat (snd x) = upper (board self ! nat (fst x) ! nat (snd x))"
      by (simp add: Q_def)
    from recased_upper_fix[OF rec' inb_t this] inb show "Q x t'" by (simp add: Q_def)
  qed
  moreover have "(int r, int c) \<in> set ?cells" using assms(2,3) by (simp add: cells_mem)
  ultimately have "Q (int r, int c) self'" by blast
  then show ?thesis by (simp add: Q_def)
qed

subsection \<open>No exception on a board that has every cell of the window\<close>

lemma for_each_no_exn:
  assumes "I s"
    and "\<And>x t. x \<in> set xs \<Longrightarrow> I t \<Longrightarrow> body x t \<noteq> Some (Inl e)"
    and "\<And>x t t'. x \<in> set xs \<Longrightarrow> I t \<Longrightarrow> body x t = Some (Inr t') \<Longrightarrow> I t'"
  shows "for_each body xs s \<noteq> Some (Inl e)"
  using assms
proof (induction xs arbitrary: s)
  case Nil
  show ?case by simp
next
  case (Cons x xs)
  have ne: "body x s \<noteq> Some (Inl e)" by (rule Cons.prems(2)[of x s]) (simp_all add: Cons.prems(1))
  show ?case
  proof (cases "body x s")
    case None
    then show ?thesis by simp
  next
    case (Some res)
    show ?thesis
    proof (cases res)
      case (Inl e')
      with Some ne show ?thesis by simp
    next
      case (Inr t)
      have "I t" by (rule Cons.prems(3)[of x s t]) (simp_all add: Cons.prems(1) Some Inr)
      have "for_each body xs t \<noteq> Some (Inl e)"
      proof (rule Cons.IH[OF \<open>I t\<close>])
        fix y u assume "y \<in> set xs" "I u"
        then show "body y u \<noteq> Some (Inl e)" by (intro Cons.prems(2)[of y u]) simp_all
      next
        fix y u u' assume "y \<in> set xs" "I u" "body y u = Some (Inr u')"
        then show "I u'" by (intro Cons.prems(3)[of y u u']) simp_all
      qed
      with Some Inr show ?thesis by simp
    qed
  qed
qed

lemma case_no_exn:
  "x \<noteq> Some (Inl e) \<Longrightarrow>
     (case x of None \<Rightarrow> None | Some (Inl e') \<Rightarrow> Some (Inl e') | Some (Inr a) \<Rightarrow> Some (Inr (f a)))
       \<noteq> Some (Inl e)"
  by (auto split: option.splits sum.splits)

lemma covers_keeps: "covers s \<Longrightarrow> keeps s t \<Longrightarrow> covers t"
  by (simp add: covers_def keeps_def recased_nth)

lemma covers_mark:
  "covers s \<Longrightarrow> covers (s\<lparr>board := set_cell (board s) r c v, validWords := V\<rparr>)"
  by (simp add: covers_def)

lemma covers_cell_pos:
  assumes "covers s" "0 \<le> row" "row < int (rowLen s)" "0 \<le> col" "col < int (colLen s)"
  shows "cell_pos (board s) row col = Some (nat row, nat col)"
proof -
  from assms(2,3) have r: "nat row < rowLen s" by simp
  with assms(1) have "colLen s \<le> length (board s ! nat row)" by (simp add: covers_def)
  with assms(4,5) have "nat col < length (board s ! nat row)" by simp
  moreover from r assms(1) have "nat row < length (board s)" by (simp add: covers_def)
  ultimately have "nat row < length (board s)" "nat col < length (board s ! nat row)"
    by simp_all
  from cell_pos_int[OF this] assms(2,4) show ?thesis by simp
qed

lemma DFS_no_exn:
  assumes "covers self" "0 \<le> row" "row < int (rowLen self)" "0 \<le> col" "col < int (colLen self)"
  shows "DFS n row col trie w self \<noteq> Some (Inl e)"
  using assms
proof (induction n arbitrary: row col trie w self)
  case 0
  show ?case by simp
next
  case (Suc n)
  let ?r = "nat row" and ?c = "nat col"
  have cp: "cell_pos (board self) row col = Some (?r, ?c)"
    by (rule covers_cell_pos[OF Suc.prems])
  show ?case
  proof (cases "board self ! ?r ! ?c = CHR ''*''")
    case True
    show ?thesis unfolding DFS_Suc_marker[OF cp True] by simp
  next
    case False
    let ?letter = "upper (board self ! ?r ! ?c)"
    show ?thesis
    proof (cases "map_of (children trie) ?letter")
      case None
      show ?thesis unfolding DFS_Suc_absent[OF cp False None] by simp
    next
      case (Some child)
      let ?found = "self\<lparr>board := set_cell (board self) ?r ?c (CHR ''*''),
                    validWords := (if valid child \<and> 3 \<le> Suc (length w)
                                   then insert (w @ [?letter]) (validWords self)
                                   else validWords self)\<rparr>"
      let ?loop = "for_each (\<lambda>cell. DFS n (fst cell) (snd cell) child (w @ [?letter]))
             (getAdjCells self row col) ?found"
      have cf: "covers ?found" using Suc.prems(1) by (rule covers_mark)
      have "?loop \<noteq> Some (Inl e)"
      proof (rule for_each_no_exn[where I = "\<lambda>t. covers t \<and> rowLen t = rowLen self \<and> colLen t = colLen self"])
        show "covers ?found \<and> rowLen ?found = rowLen self \<and> colLen ?found = colLen self"
          using cf by simp
      next
        fix x :: "int \<times> int" and t :: ValidWordsGenerator
        assume x: "x \<in> set (getAdjCells self row col)"
          and t: "covers t \<and> rowLen t = rowLen self \<and> colLen t = colLen self"
        from getAdjCells_mem[OF x] t
        show "DFS n (fst x) (snd x) child (w @ [?letter]) t \<noteq> Some (Inl e)"
          by (intro Suc.IH) simp_all
      next
        fix x :: "int \<times> int" and t t' :: ValidWordsGenerator
        assume t: "covers t \<and> rowLen t = rowLen self \<and> colLen t = colLen self"
          and call: "DFS n (fst x) (snd x) child (w @ [?letter]) t = Some (Inr t')"
        from DFS_keeps[OF call] t
        show "covers t' \<and> rowLen t' = rowLen self \<and> colLen t' = colLen self"
          using covers_keeps[of t t'] by (simp add: keeps_def)
      qed
      then show ?thesis unfolding DFS_Suc_present[OF cp False Some]
        by (rule case_no_exn)
    qed
  qed
qed

lemma findValidWords_no_exn:
  assumes "covers self"
  shows "findValidWords self \<noteq> Some (Inl e)"
  unfolding findValidWords_cells
proof (rule for_each_no_exn[where I = "keeps self"])
  show "keeps self self" by (rule keeps_refl)
next
  fix x :: "int \<times> int" and t :: ValidWordsGenerator
  assume x: "x \<in> set (List.product (map int [0 ..< rowLen self]) (map int [0 ..< colLen self]))"
    and k: "keeps self t"
  from k have rl: "rowLen t = rowLen self" "colLen t = colLen self" by (simp_all add: keeps_def)
  from x[unfolded cells_mem] rl covers_keeps[OF assms k]
  show "DFS (Suc (cell_count (board self))) (fst x) (snd x) (wordTrie self) [] t \<noteq> Some (Inl e)"
    by (intro DFS_no_exn) simp_all
next
  fix x :: "int \<times> int" and t t' :: ValidWordsGenerator
  assume "keeps self t"
    "DFS (Suc (cell_count (board self))) (fst x) (snd x) (wordTrie self) [] t = Some (Inr t')"
  then show "keeps self t'" using DFS_keeps keeps_trans by blast
qed

lemma findValidWords_covers:
  assumes "covers self"
  obtains self' where "findValidWords self = Some (Inr self')"
proof -
  from findValidWords_returns[of self] obtain res where res: "findValidWords self = Some res"
    by blast
  show thesis
  proof (cases res)
    case (Inl e)
    with res findValidWords_no_exn[OF assms, of e] show ?thesis by simp
  next
    case (Inr self')
    with res that show ?thesis by simp
  qed
qed

subsection \<open>Boards that agree up to case give the same search\<close>

lemma upper_boards_shape:
  assumes "map (map upper) b = map (map upper) b'"
  shows "map length b = map length b'"
proof -
  have "map length (map (map upper) x) = map length x" for x by simp
  with assms show ?thesis by metis
qed

lemma upper_boards_cell:
  assumes "map (map upper) b = map (map upper) b'" "r < length b" "c < length (b ! r)"
  shows "upper (b ! r ! c) = upper (b' ! r ! c)"
proof -
  from upper_boards_shape[OF assms(1)] have sh: "map length b = map length b'" .
  then have l: "length b = length b'" by (rule map_eq_imp_length_eq)
  from sh assms(2) l have lr: "length (b ! r) = length (b' ! r)" by (metis nth_map)
  have "map (map upper) b ! r ! c = upper (b ! r ! c)" using assms(2,3) by simp
  moreover have "map (map upper) b' ! r ! c = upper (b' ! r ! c)" using assms(2,3) l lr by simp
  ultimately show ?thesis using assms(1) by simp
qed

lemma upper_set_cell:
  "map (map upper) (set_cell b r c v) = set_cell (map (map upper) b) r c (upper v)"
  by (cases "r < length b") (simp_all add: set_cell_def map_update list_update_beyond)

lemma for_each_alike:
  assumes "\<And>x s t. x \<in> set xs \<Longrightarrow> alike s t \<Longrightarrow> rel_option (rel_sum (=) alike) (f x s) (g x t)"
    and "alike s t"
  shows "rel_option (rel_sum (=) alike) (for_each f xs s) (for_each g xs t)"
  using assms
proof (induction xs arbitrary: s t)
  case Nil
  from Nil.prems(2) show ?case by simp
next
  case (Cons x xs)
  have r: "rel_option (rel_sum (=) alike) (f x s) (g x t)"
    by (rule Cons.prems(1)) (simp_all add: Cons.prems(2))
  show ?case
  proof (cases "f x s")
    case None
    with r have "g x t = None" by simp
    with None show ?thesis by simp
  next
    case (Some res)
    with r obtain res' where g: "g x t = Some res'" and rr: "rel_sum (=) alike res res'"
      by (auto simp: option_rel_Some1)
    show ?thesis
    proof (cases res)
      case (Inl e)
      with rr have "res' = Inl e" by (cases res') simp_all
      with Some g Inl show ?thesis by simp
    next
      case (Inr s1)
      with rr obtain t1 where t1: "res' = Inr t1" "alike s1 t1" by (cases res') simp_all
      have "rel_option (rel_sum (=) alike) (for_each f xs s1) (for_each g xs t1)"
      proof (rule Cons.IH[OF _ t1(2)])
        fix y u v assume "y \<in> set xs" "alike u v"
        then show "rel_option (rel_sum (=) alike) (f y u) (g y v)"
          by (intro Cons.prems(1)) simp_all
      qed
      with Some g Inr t1 show ?thesis by simp
    qed
  qed
qed

lemma case_alike:
  assumes "rel_option (rel_sum (=) alike) x y"
    and "\<And>a b. alike a b \<Longrightarrow> alike (F a) (G b)"
  shows "rel_option (rel_sum (=) alike)
     (case x of None \<Rightarrow> None | Some (Inl e) \<Rightarrow> Some (Inl e) | Some (Inr a) \<Rightarrow> Some (Inr (F a)))
     (case y of None \<Rightarrow> None | Some (Inl e) \<Rightarrow> Some (Inl e) | Some (Inr a) \<Rightarrow> Some (Inr (G a)))"
proof (cases x)
  case None
  with assms(1) show ?thesis by simp
next
  case (Some res)
  with assms(1) obtain res' where y: "y = Some res'" and rr: "rel_sum (=) alike res res'"
    by (auto simp: option_rel_Some1)
  show ?thesis
  proof (cases res)
    case (Inl e)
    with rr have "res' = Inl e" by (cases res') simp_all
    with Some y Inl show ?thesis by simp
  next
    case (Inr a)
    with rr obtain b where "res' = Inr b" "alike a b" by (cases res') simp_all
    moreover from this have "alike (F a) (G b)" by (intro assms(2))
    ultimately show ?thesis using Some y Inr by simp
  qed
qed

lemma alike_set_cell:
  "alike s t \<Longrightarrow> alike (s\<lparr>board := set_cell (board s) r c v\<rparr>) (t\<lparr>board := set_cell (board t) r c v\<rparr>)"
  by (simp add: alike_def upper_set_cell)

lemma getAdjCells_alike: "alike s t \<Longrightarrow> getAdjCells s row col = getAdjCells t row col"
  by (simp add: getAdjCells_def alike_def)

lemma DFS_alike:
  "alike s t \<Longrightarrow> rel_option (rel_sum (=) alike) (DFS n row col trie w s) (DFS n row col trie w t)"
proof (induction n arbitrary: row col trie w s t)
  case 0
  show ?case by simp
next
  case (Suc n)
  from Suc.prems have ub: "map (map upper) (board s) = map (map upper) (board t)"
    by (simp add: alike_def)
  have cpe: "cell_pos (board t) row col = cell_pos (board s) row col"
    by (rule cell_pos_shape) (rule upper_boards_shape[OF ub, symmetric])
  show ?case
  proof (cases "cell_pos (board s) row col")
    case None
    with cpe show ?thesis by (simp add: DFS_Suc_IndexError)
  next
    case (Some p)
    obtain r c where p: "p = (r, c)" by (cases p)
    note cps = Some[unfolded p]
    from cps cpe have cpt: "cell_pos (board t) row col = Some (r, c)" by simp
    from cell_pos_less[OF cps] have inb: "r < length (board s)" "c < length (board s ! r)"
      by simp_all
    have le: "upper (board s ! r ! c) = upper (board t ! r ! c)"
      by (rule upper_boards_cell[OF ub inb])
    then have st: "board s ! r ! c = CHR ''*'' \<longleftrightarrow> board t ! r ! c = CHR ''*''"
      by (metis upper_star)
    show ?thesis
    proof (cases "board s ! r ! c = CHR ''*''")
      case True
      with st have "board t ! r ! c = CHR ''*''" by simp
      then show ?thesis
        unfolding DFS_Suc_marker[OF cps True] DFS_Suc_marker[OF cpt \<open>board t ! r ! c = CHR ''*''\<close>]
        using Suc.prems by simp
    next
      case False
      with st have Ft: "board t ! r ! c \<noteq> CHR ''*''" by simp
      let ?letter = "upper (board s ! r ! c)"
      show ?thesis
      proof (cases "map_of (children trie) ?letter")
        case None
        from None le have Nt: "map_of (children trie) (upper (board t ! r ! c)) = None" by simp
        show ?thesis
          unfolding DFS_Suc_absent[OF cps False None] DFS_Suc_absent[OF cpt Ft Nt] le[symmetric]
          using alike_set_cell[OF Suc.prems] by simp
      next
        case (Some child)
        from Some le have St: "map_of (children trie) (upper (board t ! r ! c)) = Some child"
          by simp
        let ?V = "\<lambda>u. (if valid child \<and> 3 \<le> Suc (length w)
                        then insert (w @ [?letter]) (validWords u) else validWords u)"
        have found: "alike (s\<lparr>board := set_cell (board s) r c (CHR ''*''), validWords := ?V s\<rparr>)
                           (t\<lparr>board := set_cell (board t) r c (CHR ''*''), validWords := ?V t\<rparr>)"
          using Suc.prems by (simp add: alike_def upper_set_cell)
        have loop: "rel_option (rel_sum (=) alike)
           (for_each (\<lambda>cell. DFS n (fst cell) (snd cell) child (w @ [?letter]))
              (getAdjCells s row col)
              (s\<lparr>board := set_cell (board s) r c (CHR ''*''), validWords := ?V s\<rparr>))
           (for_each (\<lambda>cell. DFS n (fst cell) (snd cell) child (w @ [?letter]))
              (getAdjCells s row col)
              (t\<lparr>board := set_cell (board t) r c (CHR ''*''), validWords := ?V t\<rparr>))"
          by (rule for_each_alike[OF _ found]) (rule Suc.IH)
        show ?thesis
          unfolding DFS_Suc_present[OF cps False Some] DFS_Suc_present[OF cpt Ft St] le[symmetric]
            getAdjCells_alike[OF Suc.prems, symmetric]
          by (rule case_alike[OF loop]) (rule alike_set_cell)
      qed
    qed
  qed
qed

lemma findValidWords_alike:
  assumes "alike s t"
  shows "rel_option (rel_sum (=) alike) (findValidWords s) (findValidWords t)"
proof -
  from assms have "map length (board s) = map length (board t)"
    using upper_boards_shape[of "board s" "board t"] by (simp add: alike_def)
  then have cc: "cell_count (board t) = cell_count (board s)" by (simp add: cell_count_def)
  from assms have eq: "rowLen t = rowLen s" "colLen t = colLen s" "wordTrie t = wordTrie s"
    by (simp_all add: alike_def)
  show ?thesis unfolding findValidWords_cells cc eq
    by (rule for_each_alike[OF _ assms]) (rule DFS_alike)
qed

subsection \<open>The entry point\<close>

lemma init_Inr:
  assumes "b \<noteq> []"
  obtains g where "init b d = Inr g" "board g = b" "wordTrie g = Trie d" "rowLen g = length b"
    "colLen g = length (b ! 0)" "validWords g = {}"
proof -
  from assms obtain row0 rest where b: "b = row0 # rest" by (cases b) auto
  show thesis
    by (rule that[of "\<lparr>board = b, wordTrie = Trie d, rowLen = length b,
                       colLen = length row0, validWords = {}\<rparr>"])
       (simp_all add: init_def b)
qed

lemma generateValidWords_run:
  assumes "length b = 4" "length (b ! 0) = 4" "init b d = Inr g"
  shows "generateValidWords b d =
     (case findValidWords g of
        None \<Rightarrow> None
      | Some (Inl e) \<Rightarrow> Some (Inl e)
      | Some (Inr g') \<Rightarrow> Some (Inr (Words (validWords g'), board g')))"
  using assms
  by (simp add: generateValidWords_def validBoardSize_def getValidWords_def
           split: option.splits sum.splits)

lemma generateValidWords_invalid:
  assumes "length b \<noteq> 4 \<or> length (b ! 0) \<noteq> 4"
  shows "generateValidWords b d = Some (Inr (InvalidBoardSize, b))"
  using assms by (auto simp: generateValidWords_def validBoardSize_def)

lemma generateValidWords_returns: "generateValidWords b d \<noteq> None"
proof (cases "length b \<noteq> 4 \<or> length (b ! 0) \<noteq> 4")
  case True
  then show ?thesis by (simp add: generateValidWords_invalid)
next
  case False
  then have sz: "length b = 4" "length (b ! 0) = 4" by simp_all
  then have "b \<noteq> []" by auto
  then obtain g where g: "init b d = Inr g" by (rule init_Inr)
  from findValidWords_returns[of g] obtain res where res: "findValidWords g = Some res" by blast
  show ?thesis unfolding generateValidWords_run[OF sz g] res by (cases res) simp_all
qed

lemma generateValidWords_Words:
  assumes "generateValidWords b d = Some (Inr (Words found, b'))"
  obtains g g' where "length b = 4" "length (b ! 0) = 4" "init b d = Inr g" "board g = b"
    "wordTrie g = Trie d" "rowLen g = 4" "colLen g = 4" "validWords g = {}"
    "findValidWords g = Some (Inr g')" "found = validWords g'" "b' = board g'"
proof -
  have sz: "length b = 4 \<and> length (b ! 0) = 4"
  proof (rule ccontr)
    assume "\<not> (length b = 4 \<and> length (b ! 0) = 4)"
    then have "length b \<noteq> 4 \<or> length (b ! 0) \<noteq> 4" by simp
    from generateValidWords_invalid[OF this, of d] assms show False by simp
  qed
  then have "b \<noteq> []" by auto
  then obtain g where g: "init b d = Inr g" "board g = b" "wordTrie g = Trie d"
    "rowLen g = length b" "colLen g = length (b ! 0)" "validWords g = {}"
    by (rule init_Inr)
  from sz g(1) have run: "generateValidWords b d =
     (case findValidWords g of None \<Rightarrow> None | Some (Inl e) \<Rightarrow> Some (Inl e)
      | Some (Inr g') \<Rightarrow> Some (Inr (Words (validWords g'), board g')))"
    by (simp add: generateValidWords_run)
  from assms[unfolded run] obtain g' where g': "findValidWords g = Some (Inr g')"
    "found = validWords g'" "b' = board g'"
    by (auto split: option.splits sum.splits)
  from sz g g' show thesis by (intro that[of g g']) simp_all
qed

lemma generateValidWords_sound_word:
  assumes "generateValidWords b d = Some (Inr (Words found, b'))" "u \<in> found"
  shows "sound_word 4 4 b (Trie d) u"
proof -
  from assms(1) obtain g g' where g: "board g = b" "wordTrie g = Trie d" "rowLen g = 4"
    "colLen g = 4" "validWords g = {}" "findValidWords g = Some (Inr g')" "found = validWords g'"
    by (rule generateValidWords_Words)
  from findValidWords_sound[OF g(6)] g(1-5) have "\<forall>u \<in> validWords g'. sound_word 4 4 b (Trie d) u"
    by simp
  with assms(2) g(7) show ?thesis by simp
qed

lemma traces_length:
  assumes "traces R C b p u"
  shows "length u \<le> R * C"
proof -
  from assms have d: "distinct p" and m: "length u = length p"
    and a: "set p \<subseteq> {..<R} \<times> {..<C}"
    by (auto simp: traces_def list_all_iff)
  from d have "length p = card (set p)" by (simp add: distinct_card)
  also have "\<dots> \<le> card ({..<R} \<times> {..<C})" by (rule card_mono[OF _ a]) simp
  also have "\<dots> = R * C" by simp
  finally show ?thesis using m by simp
qed

lemma traces_upper: "traces R C b p u \<Longrightarrow> map upper u = u"
  by (auto simp: traces_def upper_idem)

lemma in_image_iff: "y \<in> f ` S \<longleftrightarrow> (\<exists>x \<in> S. f x = y)"
  by auto

lemma traces_marker_free:
  assumes "traces R C b p u"
  shows "unmarked_path b p \<longleftrightarrow> CHR ''*'' \<notin> set u"
proof -
  from assms have u: "u = map (\<lambda>(r, c). upper (b ! r ! c)) p" by (simp add: traces_def)
  have su: "set u = (\<lambda>x. upper (b ! fst x ! snd x)) ` set p"
    unfolding u by (simp add: case_prod_beta)
  have "CHR ''*'' \<in> set u \<longleftrightarrow> (\<exists>x \<in> set p. upper (b ! fst x ! snd x) = CHR ''*'')"
    unfolding su by (rule in_image_iff)
  also have "\<dots> \<longleftrightarrow> (\<exists>x \<in> set p. b ! fst x ! snd x = CHR ''*'')"
    by (simp add: upper_star)
  also have "\<dots> \<longleftrightarrow> \<not> unmarked_path b p"
    by (simp add: unmarked_path_def list_all_iff case_prod_beta)
  finally show ?thesis by simp
qed

section \<open>The claims about the search\<close>

text \<open>
  Claim C1 (soundness of the result). Whenever \<open>generateValidWords\<close> returns a set of
  words, every word \<open>w\<close> of it has at least 3 letters; its upper-case form is the
  upper-case form of a word of the dictionary, and following it from the root of the trie
  ends at a valid node; and \<open>w\<close> is traced on the board given: a list of cells within the
  4 by 4 grid, no cell twice, each adjacent to the next in one of the 8 directions, whose
  upper-cased letters spell \<open>w\<close>.
\<close>

theorem generateValidWords_sound:
  assumes "generateValidWords b wordDictionary = Some (Inr (Words found, b'))" and "w \<in> found"
  shows "3 \<le> length w \<and>
         (\<exists>d \<in> set wordDictionary. map upper d = map upper w) \<and>
         (\<exists>node. walk (Trie wordDictionary) (map upper w) = Some node \<and> valid node) \<and>
         (\<exists>path. traces 4 4 b path w)"
proof -
  from generateValidWords_sound_word[OF assms]
  obtain node path where l: "3 \<le> length w"
    and n: "walk (Trie wordDictionary) w = Some node" "valid node"
    and t: "traces 4 4 b path w"
    by (auto simp: sound_word_def)
  from traces_upper[OF t] have u: "map upper w = w" .
  from valid_Trie[OF n] have "\<exists>d \<in> set wordDictionary. map upper d = w" by blast
  with l n t u show ?thesis by auto
qed

theorem generateValidWords_sound_witness:
  "generateValidWords [''CATS'', ''XXXX'', ''DOGX'', ''XXXX''] [''CAT'', ''CATS'', ''DOG'']
     = Some (Inr (Words {''CAT'', ''CATS'', ''DOG''}, [''CATS'', ''XXXX'', ''DOGX'', ''XXXX''])) \<and>
   3 \<le> length ''CATS'' \<and>
   (\<exists>d \<in> set [''CAT'', ''CATS'', ''DOG'']. map upper d = map upper ''CATS'') \<and>
   (\<exists>node. walk (Trie [''CAT'', ''CATS'', ''DOG'']) (map upper ''CATS'') = Some node \<and> valid node) \<and>
   (\<exists>path. traces 4 4 [''CATS'', ''XXXX'', ''DOGX'', ''XXXX''] path ''CATS'')"
proof -
  have g: "generateValidWords [''CATS'', ''XXXX'', ''DOGX'', ''XXXX''] [''CAT'', ''CATS'', ''DOG'']
     = Some (Inr (Words {''CAT'', ''CATS'', ''DOG''}, [''CATS'', ''XXXX'', ''DOGX'', ''XXXX'']))"
    by code_simp
  from generateValidWords_sound[OF g, of "''CATS''"] g show ?thesis by simp
qed

text \<open>
  Claim C3 (the board is restored) fails as stated: \<open>DFS\<close> writes back \<open>letter\<close>, the
  upper-cased character, not what the cell held. After the search a lower-case board is
  in upper case.
\<close>

theorem board_not_restored_counterexample:
  "generateValidWords [''cats'', ''xxxx'', ''dogx'', ''xxxx''] [''CAT'']
     = Some (Inr (Words {''CAT''}, [''CATS'', ''XXXX'', ''DOGX'', ''XXXX''])) \<and>
   [''CATS'', ''XXXX'', ''DOGX'', ''XXXX''] \<noteq> [''cats'', ''xxxx'', ''dogx'', ''xxxx'']"
  by code_simp

text \<open>
  Claim C3, amended. For a board of 4 rows of 4 columns and any dictionary the call
  returns a set of words and leaves in every cell the upper-case form of what the cell
  held: no marker set by the search remains, and a cell that held an upper-case letter, a
  character without case or the marker holds exactly what it held.
\<close>

theorem board_restored_up_to_case:
  assumes "length b = 4" and "\<forall>row \<in> set b. length row = 4"
  shows "\<exists>found. generateValidWords b wordDictionary = Some (Inr (Words found, map (map upper) b))"
proof -
  from assms(1) have ne: "b \<noteq> []" by auto
  from assms have rows: "\<And>r. r < 4 \<Longrightarrow> length (b ! r) = 4" by simp
  from ne obtain g where g: "init b wordDictionary = Inr g" "board g = b" "rowLen g = length b"
    "colLen g = length (b ! 0)"
    by (rule init_Inr)
  from g assms(1) rows have sz: "rowLen g = 4" "colLen g = 4" by simp_all
  have "covers g" unfolding covers_def using g(2) sz assms(1) rows by simp
  then obtain g' where g': "findValidWords g = Some (Inr g')" by (rule findValidWords_covers)
  from findValidWords_keeps[OF g'] g(2) have rec: "recased b (board g')" by (simp add: keeps_def)
  have "board g' = map (map upper) b"
  proof (rule nth_equalityI)
    show "length (board g') = length (map (map upper) b)" using rec by (simp add: recased_nth)
  next
    fix r assume "r < length (board g')"
    with rec assms(1) have r: "r < 4" by (simp add: recased_nth)
    show "board g' ! r = map (map upper) b ! r"
    proof (rule nth_equalityI)
      show "length (board g' ! r) = length (map (map upper) b ! r)"
        using rec r assms(1) by (simp add: recased_nth)
    next
      fix c assume "c < length (board g' ! r)"
      with rec r assms(1) rows have c: "c < 4" by (simp add: recased_nth)
      from findValidWords_upper[OF g', of r c] r c sz g(2)
      have "board g' ! r ! c = upper (b ! r ! c)" by simp
      with r c assms(1) rows show "board g' ! r ! c = map (map upper) b ! r ! c" by simp
    qed
  qed
  with generateValidWords_run[OF assms(1) rows[of 0] g(1)] g' show ?thesis by simp
qed

theorem board_restored_up_to_case_witness:
  "\<exists>found. generateValidWords [''caTs'', ''x*xx'', ''dogx'', ''xxxx''] [''CAT'']
      = Some (Inr (Words found, map (map upper) [''caTs'', ''x*xx'', ''dogx'', ''xxxx'']))"
  using board_restored_up_to_case [of "[''caTs'', ''x*xx'', ''dogx'', ''xxxx'']" "[''CAT'']"]
  by simp

text \<open>
  Claim C4 (shape validation) fails as stated for a board of 4 rows whose first row has 4
  columns and another row has not: the check reads \<open>len(board)\<close> and \<open>len(board[0])\<close>
  only, so the trie is built and the search runs. Here the second row has 5 columns and a
  set of words is returned.
\<close>

theorem first_row_only_checked_counterexample:
  "length [''cats'', ''xxxxx'', ''dogx'', ''xxxx''] = 4 \<and>
   length ([''cats'', ''xxxxx'', ''dogx'', ''xxxx''] ! 1) \<noteq> 4 \<and>
   generateValidWords [''cats'', ''xxxxx'', ''dogx'', ''xxxx''] [''CAT'']
     = Some (Inr (Words {''CAT''}, [''CATS'', ''XXXXx'', ''DOGX'', ''XXXX'']))"
  by code_simp

text \<open>
  Claim C4, amended. A board that does not have exactly 4 rows, or has 4 rows and a first
  row that does not have exactly 4 columns, gets the outcome "invalid board size"; no
  generator is made (so no trie is built and no search runs) and the board is as it was.
\<close>

theorem generateValidWords_rejects_size:
  assumes "length b \<noteq> 4 \<or> (length b = 4 \<and> length (b ! 0) \<noteq> 4)"
  shows "generateValidWords b wordDictionary = Some (Inr (InvalidBoardSize, b))"
  using assms by (auto simp: generateValidWords_invalid)

theorem generateValidWords_rejects_size_witness:
  "generateValidWords [''CAT'', ''ATS'', ''XXO''] [''CAT'']
     = Some (Inr (InvalidBoardSize, [''CAT'', ''ATS'', ''XXO'']))"
  using generateValidWords_rejects_size [of "[''CAT'', ''ATS'', ''XXO'']" "[''CAT'']"] by simp

text \<open>
  Claim C5 (determinism). The model is a function, so two calls on equal boards and
  dictionaries give equal results. For the board object as a first call that returned
  left it: the second call returns the same outcome, the same set of words or the same
  "invalid board size". (A first call that raised returned no set.)
\<close>

theorem generateValidWords_repeatable:
  assumes "generateValidWords b wordDictionary = Some (Inr (out, b'))"
  shows "\<exists>b''. generateValidWords b' wordDictionary = Some (Inr (out, b''))"
proof (cases "length b \<noteq> 4 \<or> length (b ! 0) \<noteq> 4")
  case True
  from generateValidWords_invalid[OF True, of wordDictionary] assms
  have "out = InvalidBoardSize" "b' = b" by simp_all
  with generateValidWords_invalid[OF True, of wordDictionary] show ?thesis by simp
next
  case False
  then have sz: "length b = 4" "length (b ! 0) = 4" by simp_all
  then have "b \<noteq> []" by auto
  then obtain g where g: "init b wordDictionary = Inr g" "board g = b"
    "wordTrie g = Trie wordDictionary" "rowLen g = length b" "colLen g = length (b ! 0)"
    "validWords g = {}"
    by (rule init_Inr)
  from assms[unfolded generateValidWords_run[OF sz g(1)]]
  obtain g' where g': "findValidWords g = Some (Inr g')" "out = Words (validWords g')"
    "b' = board g'"
    by (auto split: option.splits sum.splits)
  from findValidWords_keeps[OF g'(1)] g(2) g'(3) have rec: "recased b b'"
    by (simp add: keeps_def)
  with sz have sz': "length b' = 4" "length (b' ! 0) = 4" by (simp_all add: recased_nth)
  then have "b' \<noteq> []" by auto
  then obtain h where h: "init b' wordDictionary = Inr h" "board h = b'"
    "wordTrie h = Trie wordDictionary" "rowLen h = length b'" "colLen h = length (b' ! 0)"
    "validWords h = {}"
    by (rule init_Inr)
  have "alike g h"
    unfolding alike_def using g h sz sz' recased_upper_boards[OF rec] by simp
  from findValidWords_alike[OF this] g'(1)
  obtain h' where h': "findValidWords h = Some (Inr h')" "alike g' h'"
    by (auto simp: option_rel_Some1 elim: rel_sum.cases)
  from h'(2) g'(2) have "out = Words (validWords h')" by (simp add: alike_def)
  with generateValidWords_run[OF sz' h(1)] h'(1) show ?thesis by simp
qed

theorem generateValidWords_repeatable_witness:
  "generateValidWords [''cats'', ''xxxx'', ''dogx'', ''xxxx''] [''CAT'']
     = Some (Inr (Words {''CAT''}, [''CATS'', ''XXXX'', ''DOGX'', ''XXXX''])) \<and>
   (\<exists>b''. generateValidWords [''CATS'', ''XXXX'', ''DOGX'', ''XXXX''] [''CAT'']
             = Some (Inr (Words {''CAT''}, b'')))"
proof -
  have g: "generateValidWords [''cats'', ''xxxx'', ''dogx'', ''xxxx''] [''CAT'']
     = Some (Inr (Words {''CAT''}, [''CATS'', ''XXXX'', ''DOGX'', ''XXXX'']))"
    by code_simp
  from generateValidWords_repeatable[OF g] g show ?thesis by simp
qed



text \<open>
  Claim C9 (length of a word found). On a generator as \<open>__init__\<close> makes it, every word
  in the set \<open>getValidWords\<close> returns has at most \<open>rowLen * colLen\<close> letters, the number
  of cells of the grid: 16 on a 4 by 4 board.
\<close>

theorem getValidWords_length_bound:
  assumes "init b wordDictionary = Inr self"
    and "getValidWords self = Some (Inr (found, self'))" and "u \<in> found"
  shows "length u \<le> rowLen self * colLen self"
proof -
  from assms(1) have e: "validWords self = {}" by (auto simp: init_def split: list.splits)
  from assms(2) have f: "findValidWords self = Some (Inr self')" "found = validWords self'"
    by (auto simp: getValidWords_def split: option.splits sum.splits)
  from findValidWords_sound[OF f(1)] e assms(3) f(2)
  have "sound_word (rowLen self) (colLen self) (board self) (wordTrie self) u" by simp
  then obtain path where "traces (rowLen self) (colLen self) (board self) path u"
    by (auto simp: sound_word_def)
  then show ?thesis by (rule traces_length)
qed

theorem getValidWords_length_bound_witness:
  "init [''CATS'', ''XXXX'', ''DOGX'', ''XXXX''] [''CAT'', ''CATS'']
     = Inr \<lparr>board = [''CATS'', ''XXXX'', ''DOGX'', ''XXXX''], wordTrie = Trie [''CAT'', ''CATS''],
            rowLen = 4, colLen = 4, validWords = {}\<rparr> \<and>
   getValidWords \<lparr>board = [''CATS'', ''XXXX'', ''DOGX'', ''XXXX''], wordTrie = Trie [''CAT'', ''CATS''],
                  rowLen = 4, colLen = 4, validWords = {}\<rparr>
     = Some (Inr ({''CAT'', ''CATS''},
                  \<lparr>board = [''CATS'', ''XXXX'', ''DOGX'', ''XXXX''], wordTrie = Trie [''CAT'', ''CATS''],
                   rowLen = 4, colLen = 4, validWords = {''CAT'', ''CATS''}\<rparr>)) \<and>
   length ''CATS'' \<le> 4 * 4"
proof -
  let ?g = "\<lparr>board = [''CATS'', ''XXXX'', ''DOGX'', ''XXXX''], wordTrie = Trie [''CAT'', ''CATS''],
            rowLen = 4, colLen = 4, validWords = {}\<rparr>"
  have i: "init [''CATS'', ''XXXX'', ''DOGX'', ''XXXX''] [''CAT'', ''CATS''] = Inr ?g"
    by (simp add: init_def)
  have r: "getValidWords ?g
     = Some (Inr ({''CAT'', ''CATS''},
                  \<lparr>board = [''CATS'', ''XXXX'', ''DOGX'', ''XXXX''], wordTrie = Trie [''CAT'', ''CATS''],
                   rowLen = 4, colLen = 4, validWords = {''CAT'', ''CATS''}\<rparr>))"
    by code_simp
  from getValidWords_length_bound[OF i r, of "''CATS''"] i r show ?thesis by simp
qed

text \<open>
  Claim C10 (a cell that holds the marker from the start). A call of \<open>DFS\<close> at a cell
  that holds \<open>*\<close> returns at once with the generator unchanged, whatever the trie node.
  So a word in the set \<open>generateValidWords\<close> returns contains no \<open>*\<close>, it has a trace
  through cells that did not hold \<open>*\<close> on the board given, and no trace of it uses a cell
  that held \<open>*\<close>.
\<close>

theorem marker_cell_never_used:
  "(cell_pos (board self) row col = Some (r, c) \<longrightarrow> board self ! r ! c = CHR ''*'' \<longrightarrow>
      DFS (Suc depth) row col trie incoming_word self = Some (Inr self)) \<and>
   (generateValidWords b wordDictionary = Some (Inr (Words found, b')) \<longrightarrow> u \<in> found \<longrightarrow>
      CHR ''*'' \<notin> set u \<and>
      (\<exists>path. traces 4 4 b path u \<and> unmarked_path b path) \<and>
      (\<forall>path. traces 4 4 b path u \<longrightarrow> unmarked_path b path))"
proof (intro conjI impI)
  assume "cell_pos (board self) row col = Some (r, c)" "board self ! r ! c = CHR ''*''"
  then show "DFS (Suc depth) row col trie incoming_word self = Some (Inr self)"
    by (rule DFS_Suc_marker)
next
  assume a: "generateValidWords b wordDictionary = Some (Inr (Words found, b'))" "u \<in> found"
  from generateValidWords_sound_word[OF a]
  obtain path where p: "traces 4 4 b path u" "unmarked_path b path"
    by (auto simp: sound_word_def)
  from p show "\<exists>path. traces 4 4 b path u \<and> unmarked_path b path" by blast
  from p traces_marker_free[OF p(1)] show s: "CHR ''*'' \<notin> set u" by simp
  show "\<forall>path. traces 4 4 b path u \<longrightarrow> unmarked_path b path"
    using s traces_marker_free by blast
qed

theorem marker_cell_never_used_witness:
  "DFS (Suc 0) 0 2 (Trie [''CAT'']) []
      \<lparr>board = [''CA*S'', ''XXTX'', ''DOGX'', ''XXXX''], wordTrie = Trie [''CAT''],
       rowLen = 4, colLen = 4, validWords = {}\<rparr>
     = Some (Inr \<lparr>board = [''CA*S'', ''XXTX'', ''DOGX'', ''XXXX''], wordTrie = Trie [''CAT''],
                  rowLen = 4, colLen = 4, validWords = {}\<rparr>) \<and>
   generateValidWords [''CA*S'', ''XXTX'', ''DOGX'', ''XXXX''] [''CAT'']
     = Some (Inr (Words {''CAT''}, [''CA*S'', ''XXTX'', ''DOGX'', ''XXXX''])) \<and>
   CHR ''*'' \<notin> set ''CAT'' \<and>
   (\<exists>path. traces 4 4 [''CA*S'', ''XXTX'', ''DOGX'', ''XXXX''] path ''CAT'' \<and>
           unmarked_path [''CA*S'', ''XXTX'', ''DOGX'', ''XXXX''] path)"
proof -
  let ?b = "[''CA*S'', ''XXTX'', ''DOGX'', ''XXXX'']"
  let ?g = "\<lparr>board = ?b, wordTrie = Trie [''CAT''], rowLen = 4, colLen = 4, validWords = {}\<rparr>"
  have p: "cell_pos (board ?g) 0 2 = Some (0, 2)" by (simp add: cell_pos_def py_index_def)
  have m: "board ?g ! 0 ! 2 = CHR ''*''" by simp
  have g: "generateValidWords ?b [''CAT''] = Some (Inr (Words {''CAT''}, ?b))" by code_simp
  from marker_cell_never_used
    [of ?g 0 2 0 2 0 "Trie [''CAT'']" "[]" ?b "[''CAT'']" "{''CAT''}" ?b "''CAT''"] p m g
  show ?thesis by simp
qed

end
